theory Spec2Isabelle
  imports Main "HOL-Library.Word"
begin

section \<open>The consumer of ndn-consumer.cpp: data model\<close>

text \<open>
  Sequence numbers and the per-sequence send counters are \<open>uint32_t\<close>: 32-bit words,
  whose \<open>+\<close> wraps. Simulation time (\<open>ns3::Time\<close>, 64-bit) is an integer; its
  overflow is not modelled.
\<close>

type_synonym seqno = "32 word"
type_synonym simtime = int

text \<open>\<open>std::numeric_limits<uint32_t>::max()\<close>: the value \<open>SendPacket\<close> calls invalid,
  and the value of \<open>m_seqMax\<close> that means no limit.\<close>

definition uint32_max :: seqno where
  "uint32_max = 0xFFFFFFFF"

text \<open>\<open>SeqTimeout(seq, time)\<close>: one entry of a ledger.\<close>

datatype SeqTimeout = SeqTimeout (seq: seqno) (time: simtime)

text \<open>
  Modelled from the spec: the declaration of \<open>SeqTimeoutsContainer\<close> (in
  ndn-consumer.hpp, which is not among the sources). The spec's data model: entries
  \<open>{sequenceNumber, sendTime}\<close>, keyed uniquely by sequenceNumber, ordered by sendTime
  ascending. The list is the container in the order of its time index
  (\<open>get<i_timestamp>()\<close>); an entry whose time equals that of entries already there
  goes after them. \<open>insert\<close> on a container that already has the key changes nothing.
\<close>

type_synonym SeqTimeoutsContainer = "SeqTimeout list"

fun ins_time :: "SeqTimeout \<Rightarrow> SeqTimeoutsContainer \<Rightarrow> SeqTimeoutsContainer" where
  "ins_time e [] = [e]"
| "ins_time e (x # xs) = (if time e < time x then e # x # xs else x # ins_time e xs)"

definition seq_keys :: "SeqTimeoutsContainer \<Rightarrow> seqno set" where
  "seq_keys l = set (map seq l)"

definition ledger_insert :: "SeqTimeout \<Rightarrow> SeqTimeoutsContainer \<Rightarrow> SeqTimeoutsContainer" where
  "ledger_insert e l = (if seq e \<in> seq_keys l then l else ins_time e l)"

definition ledger_erase :: "seqno \<Rightarrow> SeqTimeoutsContainer \<Rightarrow> SeqTimeoutsContainer" where
  "ledger_erase k l = filter (\<lambda>e. seq e \<noteq> k) l"

definition ledger_find :: "seqno \<Rightarrow> SeqTimeoutsContainer \<Rightarrow> SeqTimeout option" where
  "ledger_find k l = find (\<lambda>e. seq e = k) l"

text \<open>What the container type guarantees: ordered by time, one entry per key.\<close>

definition ledger_wf :: "SeqTimeoutsContainer \<Rightarrow> bool" where
  "ledger_wf l = (sorted (map time l) \<and> distinct (map seq l))"

text \<open>
  Modelled from the spec: the declaration of \<open>m_retxSeqs\<close> (the same absent header).
  The spec's RetransmissionSet is a deduplicated set of sequence numbers with a
  deterministic first element; the source calls it a set and uses
  \<open>insert(v)\<close>, \<open>erase(v)\<close>, \<open>begin()\<close> and \<open>size()\<close>: an ordered set of
  \<open>uint32_t\<close>, here the list of its elements in ascending order.
\<close>

type_synonym retx_set = "seqno list"

definition set_insert :: "seqno \<Rightarrow> retx_set \<Rightarrow> retx_set" where
  "set_insert k xs = (if k \<in> set xs then xs else insort k xs)"

definition set_erase :: "seqno \<Rightarrow> retx_set \<Rightarrow> retx_set" where
  "set_erase k xs = filter (\<lambda>x. x \<noteq> k) xs"

definition retx_wf :: "retx_set \<Rightarrow> bool" where
  "retx_wf xs = (sorted xs \<and> distinct xs)"

text \<open>
  Modelled from the spec: the declaration of \<open>m_seqRetxCounts\<close> (the same absent
  header). The spec's RetransmitCounters map a sequence number to the count of sends
  so far; the source compares the count with \<open>GetRetxNumber()\<close>, a \<open>uint32_t\<close>, and
  uses \<open>m[k]\<close>, which creates a zero entry when the key is absent and yields the entry.
\<close>

type_synonym counts = "seqno \<rightharpoonup> 32 word"

definition subscript :: "counts \<Rightarrow> seqno \<Rightarrow> 32 word \<times> counts" where
  "subscript m k = (case m k of None \<Rightarrow> (0, m(k \<mapsto> 0)) | Some v \<Rightarrow> (v, m))"

text \<open>
  The fields of \<open>Consumer\<close> that the handlers read and write. Their declarations are
  in the absent header too; \<open>m_seq\<close> and \<open>m_seqMax\<close> are compared with the largest
  \<open>uint32_t\<close> and are the spec's 32-bit sequence counter and its optional bound,
  \<open>m_retxNum\<close> is what \<open>GetRetxNumber()\<close> returns as \<open>uint32_t\<close>.
\<close>

record consumer =
  m_active :: bool
  m_seq :: seqno
  m_seqMax :: seqno
  m_retxNum :: "32 word"
  m_retxTimer :: simtime
  m_seqTimeouts :: SeqTimeoutsContainer
  m_seqFullDelay :: SeqTimeoutsContainer
  m_seqLastDelay :: SeqTimeoutsContainer
  m_seqRetxCounts :: counts
  m_retxSeqs :: retx_set

text \<open>
  What a handler does to its collaborators, in the order of the calls: the RTT
  estimator \<open>m_rtt\<close>, the scheduler, the face, the trace sources and the base class.
  \<open>ScheduleNextPacket\<close> is virtual and implemented in a subclass; it asks the
  scheduler for a later \<open>SendPacket\<close>.
\<close>

datatype effect =
    Rtt_IncreaseMultiplier
  | Rtt_SentSeq seqno
  | Rtt_DiscardInterestBySeq seqno
  | Rtt_SetInterestInfo seqno
  | Rtt_AckSeq seqno
  | ScheduleNextPacket
  | Schedule_CheckRetxTimeout simtime
  | Cout_SendInterest seqno
  | Trace_transmittedInterests seqno
  | Face_onReceiveInterest seqno
  | App_OnData seqno
  | Trace_lastRetransmittedInterestDataDelay seqno simtime int
  | Trace_firstInterestDataDelay seqno simtime "32 word" int

section \<open>The handlers\<close>

text \<open>\<open>Consumer::Consumer\<close>: \<open>m_seq(0)\<close>, \<open>m_seqMax(0)\<close>, \<open>m_retxNum(3)\<close>, empty
  containers. The active flag and the timer interval are set from outside.\<close>

definition Consumer :: "bool \<Rightarrow> simtime \<Rightarrow> consumer" where
  "Consumer active retxTimer =
     \<lparr> m_active = active, m_seq = 0, m_seqMax = 0, m_retxNum = 3,
       m_retxTimer = retxTimer, m_seqTimeouts = [], m_seqFullDelay = [],
       m_seqLastDelay = [], m_seqRetxCounts = Map.empty, m_retxSeqs = [] \<rparr>"

text \<open>\<open>Consumer::WaitBeforeSendOutInterest(sequenceNumber, name)\<close> at time \<open>now\<close>.\<close>

definition WaitBeforeSendOutInterest ::
  "simtime \<Rightarrow> seqno \<Rightarrow> consumer \<Rightarrow> consumer \<times> effect list" where
  "WaitBeforeSendOutInterest now sequenceNumber s =
     (s\<lparr> m_seqTimeouts := ledger_insert (SeqTimeout sequenceNumber now) (m_seqTimeouts s),
         m_seqFullDelay := ledger_insert (SeqTimeout sequenceNumber now) (m_seqFullDelay s),
         m_seqLastDelay := ledger_insert (SeqTimeout sequenceNumber now)
                             (ledger_erase sequenceNumber (m_seqLastDelay s)),
         m_seqRetxCounts :=
           (let (c, m) = subscript (m_seqRetxCounts s) sequenceNumber
            in m(sequenceNumber \<mapsto> c + 1)) \<rparr>,
      [Rtt_SetInterestInfo sequenceNumber])"

text \<open>
  The second half of \<open>Consumer::SendPacket\<close> (lines 199 to 241), for the sequence
  number chosen by the first half: the bookkeeping of
  \<open>WaitBeforeSendOutInterest\<close>, the debug line, the trace source, the face, and
  \<open>ScheduleNextPacket\<close>. The nonce and the lifetime of the Interest are not modelled.
\<close>

definition SendPacket_send :: "simtime \<Rightarrow> seqno \<Rightarrow> consumer \<Rightarrow> consumer \<times> effect list" where
  "SendPacket_send now k s =
     (let r = WaitBeforeSendOutInterest now k s
      in (fst r, snd r @ [Cout_SendInterest k, Trace_transmittedInterests k,
                          Face_onReceiveInterest k, ScheduleNextPacket]))"

text \<open>
  \<open>Consumer::SendPacket\<close> at time \<open>now\<close>. \<open>seq1\<close> is the local \<open>seq\<close> after
  the loop over \<open>m_retxSeqs\<close> (which runs at most once): the first element of the set,
  erased from it, or \<open>uint32_max\<close> when the set is empty.
\<close>

definition SendPacket :: "simtime \<Rightarrow> consumer \<Rightarrow> consumer \<times> effect list" where
  "SendPacket now s =
     (if \<not> m_active s then (s, [])
      else
        let (seq1, s1) =
              (if m_retxSeqs s \<noteq> []
               then (hd (m_retxSeqs s), s\<lparr> m_retxSeqs := tl (m_retxSeqs s) \<rparr>)
               else (uint32_max, s))
        in if seq1 = uint32_max
           then (if m_seqMax s1 \<noteq> uint32_max \<and> m_seqMax s1 \<le> m_seq s1
                 then (s1, [])
                 else SendPacket_send now (m_seq s1) (s1\<lparr> m_seq := m_seq s1 + 1 \<rparr>))
           else SendPacket_send now seq1 s1)"

text \<open>The five erasures of \<open>Consumer::OnData\<close> (lines 289 to 294).\<close>

definition erase_seq :: "seqno \<Rightarrow> consumer \<Rightarrow> consumer" where
  "erase_seq k s =
     s\<lparr> m_seqRetxCounts := (m_seqRetxCounts s)(k := None),
        m_seqTimeouts := ledger_erase k (m_seqTimeouts s),
        m_retxSeqs := set_erase k (m_retxSeqs s),
        m_seqFullDelay := ledger_erase k (m_seqFullDelay s),
        m_seqLastDelay := ledger_erase k (m_seqLastDelay s) \<rparr>"

text \<open>
  \<open>Consumer::OnData\<close> at time \<open>now\<close>, for a Data packet whose name ends in the
  sequence number \<open>k\<close> and whose hop count tag reads \<open>hopCount\<close> (0 without a tag).
  \<open>m_seqRetxCounts[seq]\<close> is evaluated only when the first-send ledger has the key.
\<close>

definition OnData :: "simtime \<Rightarrow> seqno \<Rightarrow> int \<Rightarrow> consumer \<Rightarrow> consumer \<times> effect list" where
  "OnData now k hopCount s =
     (if \<not> m_active s then (s, [])
      else
        let e1 = (case ledger_find k (m_seqLastDelay s) of
                    None \<Rightarrow> []
                  | Some entry \<Rightarrow>
                      [Trace_lastRetransmittedInterestDataDelay k (now - time entry) hopCount]);
            (e2, s2) = (case ledger_find k (m_seqFullDelay s) of
                    None \<Rightarrow> ([], s)
                  | Some entry \<Rightarrow>
                      (let (c, m) = subscript (m_seqRetxCounts s) k
                       in ([Trace_firstInterestDataDelay k (now - time entry) c hopCount],
                           s\<lparr> m_seqRetxCounts := m \<rparr>)))
        in (erase_seq k s2, [App_OnData k] @ e1 @ e2 @ [Rtt_AckSeq k]))"

text \<open>\<open>Consumer::OnTimeout(sequenceNumber)\<close>; \<open>GetRetxNumber()\<close> is \<open>m_retxNum\<close>.\<close>

definition OnTimeout :: "seqno \<Rightarrow> consumer \<Rightarrow> consumer \<times> effect list" where
  "OnTimeout sequenceNumber s =
     (let (c, m) = subscript (m_seqRetxCounts s) sequenceNumber
      in if c < m_retxNum s
         then (s\<lparr> m_seqRetxCounts := m,
                  m_retxSeqs := set_insert sequenceNumber (m_retxSeqs s) \<rparr>,
               [Rtt_IncreaseMultiplier, Rtt_SentSeq sequenceNumber, ScheduleNextPacket])
         else (s\<lparr> m_seqRetxCounts := m(sequenceNumber := None),
                  m_seqFullDelay := ledger_erase sequenceNumber (m_seqFullDelay s),
                  m_seqLastDelay := ledger_erase sequenceNumber (m_seqLastDelay s),
                  m_seqTimeouts := ledger_erase sequenceNumber (m_seqTimeouts s) \<rparr>,
               [Rtt_IncreaseMultiplier, Rtt_DiscardInterestBySeq sequenceNumber]))"

lemma length_ledger_erase: "length (ledger_erase k l) \<le> length l"
  by (simp add: ledger_erase_def)

lemma length_OnTimeout:
  "length (m_seqTimeouts (fst (OnTimeout k s))) \<le> length (m_seqTimeouts s)"
  by (simp add: OnTimeout_def Let_def length_ledger_erase split: prod.splits)

text \<open>
  The loop of \<open>Consumer::CheckRetxTimeout\<close>, with \<open>rto\<close> the value that
  \<open>m_rtt->RetransmitTimeout()\<close> returned before the loop: the first entry of the time
  index is erased and handed to \<open>OnTimeout\<close> while it has expired.
\<close>

function CheckRetxTimeout_loop ::
  "simtime \<Rightarrow> simtime \<Rightarrow> consumer \<Rightarrow> consumer \<times> effect list" where
  "CheckRetxTimeout_loop now rto s =
     (case m_seqTimeouts s of
        [] \<Rightarrow> (s, [])
      | entry # rest \<Rightarrow>
          if time entry + rto \<le> now
          then (let r1 = OnTimeout (seq entry) (s\<lparr> m_seqTimeouts := rest \<rparr>);
                    r2 = CheckRetxTimeout_loop now rto (fst r1)
                in (fst r2, snd r1 @ snd r2))
          else (s, []))"
  by pat_completeness auto
termination
proof (relation "measure (\<lambda>(now, rto, s). length (m_seqTimeouts s))")
  show "wf (measure (\<lambda>(now, rto, s). length (m_seqTimeouts s)))"
    by simp
next
  fix now rto :: simtime and s :: consumer and entry rest r1
  assume a: "m_seqTimeouts s = entry # rest"
    and r: "r1 = OnTimeout (seq entry) (s\<lparr> m_seqTimeouts := rest \<rparr>)"
  have "length (m_seqTimeouts (fst r1)) \<le> length rest"
    using length_OnTimeout [of "seq entry" "s\<lparr> m_seqTimeouts := rest \<rparr>"] r by simp
  then show "((now, rto, fst r1), (now, rto, s))
      \<in> measure (\<lambda>(now, rto, s). length (m_seqTimeouts s))"
    using a by simp
qed

text \<open>\<open>Consumer::CheckRetxTimeout\<close> at time \<open>now\<close>: the loop, then the next check is
  scheduled after \<open>m_retxTimer\<close>.\<close>

definition CheckRetxTimeout :: "simtime \<Rightarrow> simtime \<Rightarrow> consumer \<Rightarrow> consumer \<times> effect list" where
  "CheckRetxTimeout now rto s =
     (let r = CheckRetxTimeout_loop now rto s
      in (fst r, snd r @ [Schedule_CheckRetxTimeout (m_retxTimer (fst r))]))"

section \<open>Executions\<close>

text \<open>
  The scheduler dispatches one event at a time: a send tick, a timeout check (with the
  timeout the estimator returns at that moment) or the arrival of a Data packet.
\<close>

datatype event =
    Ev_SendPacket simtime
  | Ev_CheckRetxTimeout simtime simtime
  | Ev_OnData simtime seqno int

fun step :: "consumer \<Rightarrow> event \<Rightarrow> consumer \<times> effect list" where
  "step s (Ev_SendPacket now) = SendPacket now s"
| "step s (Ev_CheckRetxTimeout now rto) = CheckRetxTimeout now rto s"
| "step s (Ev_OnData now k hopCount) = OnData now k hopCount s"

fun run :: "consumer \<Rightarrow> event list \<Rightarrow> consumer \<times> effect list" where
  "run s [] = (s, [])"
| "run s (e # es) =
     (case step s e of (s1, e1) \<Rightarrow>
        (case run s1 es of (s2, e2) \<Rightarrow> (s2, e1 @ e2)))"

section \<open>Auxiliary definitions\<close>

text \<open>The value that \<open>m_seqRetxCounts[k]\<close> reads: 0 for an absent key.\<close>

definition retx_count :: "consumer \<Rightarrow> seqno \<Rightarrow> 32 word" where
  "retx_count s k = (case m_seqRetxCounts s k of None \<Rightarrow> 0 | Some c \<Rightarrow> c)"

text \<open>No ledger, counter or set has an entry for \<open>k\<close>.\<close>

definition absent :: "seqno \<Rightarrow> consumer \<Rightarrow> bool" where
  "absent k s = (k \<notin> dom (m_seqRetxCounts s) \<and> k \<notin> seq_keys (m_seqTimeouts s)
     \<and> k \<notin> set (m_retxSeqs s) \<and> k \<notin> seq_keys (m_seqFullDelay s)
     \<and> k \<notin> seq_keys (m_seqLastDelay s))"

fun is_delay_metric :: "effect \<Rightarrow> bool" where
  "is_delay_metric (Trace_lastRetransmittedInterestDataDelay k d h) = True"
| "is_delay_metric (Trace_firstInterestDataDelay k d c h) = True"
| "is_delay_metric e = False"

text \<open>\<open>OnTimeout\<close> called for each sequence number of a list, in order.\<close>

fun handle_timeouts :: "seqno list \<Rightarrow> consumer \<Rightarrow> consumer \<times> effect list" where
  "handle_timeouts [] s = (s, [])"
| "handle_timeouts (k # ks) s =
     (let r1 = OnTimeout k s; r2 = handle_timeouts ks (fst r1)
      in (fst r2, snd r1 @ snd r2))"

text \<open>The spec's test on an entry of the timeout ledger: its age is at least the threshold.\<close>

definition expired :: "simtime \<Rightarrow> simtime \<Rightarrow> SeqTimeout \<Rightarrow> bool" where
  "expired now rto e = (rto \<le> now - time e)"

text \<open>
  Example states. \<open>ex_unlimited\<close>: an active consumer with \<open>StartSeq\<close> -1 (stored in a
  \<open>uint32_t\<close>) and no sequence limit. \<open>ex_limited\<close>: an active consumer that starts at 0
  with the limit 5. \<open>ex_inflight\<close>: \<open>ex_limited\<close> after three sends, a timeout check that
  expires two of them, and one more send.
\<close>

definition ex_unlimited :: consumer where
  "ex_unlimited = (Consumer True 50)\<lparr> m_seq := uint32_max, m_seqMax := uint32_max \<rparr>"

definition ex_limited :: consumer where
  "ex_limited = (Consumer True 50)\<lparr> m_seqMax := 5 \<rparr>"

definition ex_inflight :: consumer where
  "ex_inflight = fst (run ex_limited
     [Ev_SendPacket 0, Ev_SendPacket 10, Ev_SendPacket 100, Ev_CheckRetxTimeout 150 100,
      Ev_SendPacket 160])"

text \<open>\<open>ex_sentinel\<close>: \<open>ex_unlimited\<close> after one send (of sequence number
  \<open>0xFFFFFFFF\<close>) and a timeout check that expires it.\<close>

definition ex_sentinel :: consumer where
  "ex_sentinel = fst (run ex_unlimited [Ev_SendPacket 0, Ev_CheckRetxTimeout 50 10])"

text \<open>\<open>ex_later\<close>: four more rounds of a tick and a timeout check that finds the send
  expired.\<close>

definition ex_later :: "event list" where
  "ex_later =
     [Ev_SendPacket 50, Ev_CheckRetxTimeout 100 10, Ev_SendPacket 100,
      Ev_CheckRetxTimeout 150 10, Ev_SendPacket 150, Ev_CheckRetxTimeout 200 10,
      Ev_SendPacket 200, Ev_CheckRetxTimeout 250 10]"

section \<open>Facts about the containers\<close>

declare CheckRetxTimeout_loop.simps [simp del]

text \<open>Equations that evaluate the handlers on explicit states, innermost call first.\<close>

lemma loop_Nil: "m_seqTimeouts s = [] \<Longrightarrow> CheckRetxTimeout_loop now rto s = (s, [])"
  by (subst CheckRetxTimeout_loop.simps) simp

lemma loop_Cons:
  "m_seqTimeouts s = e # rest \<Longrightarrow>
   CheckRetxTimeout_loop now rto s =
     (if time e + rto \<le> now
      then (case OnTimeout (seq e) (s\<lparr> m_seqTimeouts := rest \<rparr>) of (s1, e1) \<Rightarrow>
              (case CheckRetxTimeout_loop now rto s1 of (s2, e2) \<Rightarrow> (s2, e1 @ e2)))
      else (s, []))"
  by (subst CheckRetxTimeout_loop.simps) (simp add: Let_def split: prod.splits)

lemma seq_keys_Nil: "seq_keys [] = {}"
  by (simp add: seq_keys_def)

lemma seq_keys_Cons: "seq_keys (x # xs) = insert (seq x) (seq_keys xs)"
  by (simp add: seq_keys_def)

lemma ledger_erase_Nil: "ledger_erase k [] = []"
  by (simp add: ledger_erase_def)

lemma ledger_erase_Cons:
  "ledger_erase k (x # xs) = (if seq x = k then ledger_erase k xs else x # ledger_erase k xs)"
  by (simp add: ledger_erase_def)

lemma ledger_find_Nil: "ledger_find k [] = None"
  by (simp add: ledger_find_def)

lemma ledger_find_Cons:
  "ledger_find k (x # xs) = (if seq x = k then Some x else ledger_find k xs)"
  by (simp add: ledger_find_def)

lemma set_erase_Nil: "set_erase k [] = []"
  by (simp add: set_erase_def)

lemma set_erase_Cons:
  "set_erase k (x # xs) = (if x = k then set_erase k xs else x # set_erase k xs)"
  by (simp add: set_erase_def)

lemmas model_defs =
  Consumer_def SendPacket_def SendPacket_send_def WaitBeforeSendOutInterest_def
  CheckRetxTimeout_def loop_Nil loop_Cons OnTimeout_def OnData_def erase_seq_def
  uint32_max_def ledger_insert_def subscript_def set_insert_def Let_def
  seq_keys_Nil seq_keys_Cons ledger_erase_Nil ledger_erase_Cons ledger_find_Nil
  ledger_find_Cons set_erase_Nil set_erase_Cons word_le_nat_alt
  ex_unlimited_def ex_limited_def ex_inflight_def

lemma ex_inflight_eq:
  "ex_inflight =
     \<lparr> m_active = True, m_seq = 3, m_seqMax = 5, m_retxNum = 3, m_retxTimer = 50,
       m_seqTimeouts = [SeqTimeout 2 100, SeqTimeout 0 160],
       m_seqFullDelay = [SeqTimeout 0 0, SeqTimeout 1 10, SeqTimeout 2 100],
       m_seqLastDelay = [SeqTimeout 1 10, SeqTimeout 2 100, SeqTimeout 0 160],
       m_seqRetxCounts = [0 \<mapsto> 1, 1 \<mapsto> 1, 2 \<mapsto> 1, 0 \<mapsto> 2],
       m_retxSeqs = [1] \<rparr>"
  by (simp add: model_defs)

lemma ledger_erase_absent: "k \<notin> seq_keys l \<Longrightarrow> ledger_erase k l = l"
  by (induction l) (auto simp: ledger_erase_def seq_keys_def)

lemma ledger_erase_idem: "ledger_erase k (ledger_erase k l) = ledger_erase k l"
  by (simp add: ledger_erase_def)

lemma seq_keys_ledger_erase: "seq_keys (ledger_erase k l) = seq_keys l - {k}"
  by (auto simp: ledger_erase_def seq_keys_def)

lemma ledger_find_absent: "k \<notin> seq_keys l \<Longrightarrow> ledger_find k l = None"
  by (induction l) (auto simp: ledger_find_def seq_keys_def)

lemma ledger_find_None_iff: "ledger_find k l = None \<longleftrightarrow> k \<notin> seq_keys l"
  by (induction l) (auto simp: ledger_find_def seq_keys_def)

lemma set_erase_absent: "k \<notin> set xs \<Longrightarrow> set_erase k xs = xs"
  by (induction xs) (auto simp: set_erase_def)

lemma set_erase_idem: "set_erase k (set_erase k xs) = set_erase k xs"
  by (simp add: set_erase_def)

lemma set_set_erase: "set (set_erase k xs) = set xs - {k}"
  by (auto simp: set_erase_def)

lemma set_set_insert: "set (set_insert k xs) = insert k (set xs)"
  by (auto simp: set_insert_def set_insort_key)

lemma hd_sorted_Min: "sorted xs \<Longrightarrow> xs \<noteq> [] \<Longrightarrow> hd xs = Min (set xs)"
proof (cases xs)
  case Nil
  assume "xs \<noteq> []"
  with Nil show ?thesis by simp
next
  case (Cons x ys)
  assume "sorted xs"
  with Cons have "\<forall>y \<in> set xs. x \<le> y" by auto
  then have "Min (set xs) = x"
    using Cons by (intro Min_eqI) auto
  with Cons show ?thesis by simp
qed

lemma set_tl_distinct: "distinct xs \<Longrightarrow> xs \<noteq> [] \<Longrightarrow> set (tl xs) = set xs - {hd xs}"
  by (cases xs) auto

lemma erase_seq_absent: "absent k s \<Longrightarrow> erase_seq k s = s"
  by (simp add: absent_def erase_seq_def ledger_erase_absent set_erase_absent domIff)

lemma erase_seq_idem: "erase_seq k (erase_seq k s) = erase_seq k s"
  by (simp add: erase_seq_def ledger_erase_idem set_erase_idem)

lemma absent_erase_seq: "absent k (erase_seq k s)"
  by (simp add: absent_def erase_seq_def seq_keys_ledger_erase set_set_erase)

section \<open>The timeout handler\<close>

text \<open>
  Claim C3. For every sequence number \<open>k\<close>, \<open>OnTimeout\<close> first tells the estimator to
  back off. If the counter that \<open>m_seqRetxCounts[k]\<close> reads is below \<open>m_retxNum\<close>, it then
  marks the next send of \<open>k\<close> for the estimator (\<open>SentSeq\<close>), puts \<open>k\<close> into
  \<open>m_retxSeqs\<close> and asks for a scheduling tick, leaving the three ledgers and what
  every counter reads as they were. Otherwise it erases \<open>k\<close> from the counters and from the
  first-send, last-send and timeout ledgers and tells the estimator to discard its
  history of \<open>k\<close>; \<open>m_retxSeqs\<close> is unchanged and no tick is asked for.
\<close>

theorem OnTimeout_retry_or_discard:
  "hd (snd (OnTimeout k s)) = Rtt_IncreaseMultiplier \<and>
   (if retx_count s k < m_retxNum s
    then snd (OnTimeout k s) = [Rtt_IncreaseMultiplier, Rtt_SentSeq k, ScheduleNextPacket]
       \<and> set (m_retxSeqs (fst (OnTimeout k s))) = insert k (set (m_retxSeqs s))
       \<and> m_seqTimeouts (fst (OnTimeout k s)) = m_seqTimeouts s
       \<and> m_seqFullDelay (fst (OnTimeout k s)) = m_seqFullDelay s
       \<and> m_seqLastDelay (fst (OnTimeout k s)) = m_seqLastDelay s
       \<and> retx_count (fst (OnTimeout k s)) = retx_count s
    else snd (OnTimeout k s) = [Rtt_IncreaseMultiplier, Rtt_DiscardInterestBySeq k]
       \<and> k \<notin> dom (m_seqRetxCounts (fst (OnTimeout k s)))
       \<and> k \<notin> seq_keys (m_seqFullDelay (fst (OnTimeout k s)))
       \<and> k \<notin> seq_keys (m_seqLastDelay (fst (OnTimeout k s)))
       \<and> k \<notin> seq_keys (m_seqTimeouts (fst (OnTimeout k s)))
       \<and> m_retxSeqs (fst (OnTimeout k s)) = m_retxSeqs s)"
  by (auto simp: OnTimeout_def subscript_def retx_count_def set_set_insert seq_keys_ledger_erase
      fun_eq_iff split: option.splits)

theorem OnTimeout_retry_or_discard_witness:
  "retx_count ex_inflight 0 < m_retxNum ex_inflight
   \<and> snd (OnTimeout 0 ex_inflight) = [Rtt_IncreaseMultiplier, Rtt_SentSeq 0, ScheduleNextPacket]
   \<and> m_retxSeqs (fst (OnTimeout 0 ex_inflight)) = [0, 1]
   \<and> \<not> retx_count (ex_inflight\<lparr> m_retxNum := 2 \<rparr>) 0 < m_retxNum (ex_inflight\<lparr> m_retxNum := 2 \<rparr>)
   \<and> snd (OnTimeout 0 (ex_inflight\<lparr> m_retxNum := 2 \<rparr>))
       = [Rtt_IncreaseMultiplier, Rtt_DiscardInterestBySeq 0]
   \<and> m_seqFullDelay (fst (OnTimeout 0 (ex_inflight\<lparr> m_retxNum := 2 \<rparr>)))
       = [SeqTimeout 1 10, SeqTimeout 2 100]"
  using OnTimeout_retry_or_discard [of 0 ex_inflight]
    OnTimeout_retry_or_discard [of 0 "ex_inflight\<lparr> m_retxNum := 2 \<rparr>"]
  by (simp add: ex_inflight_eq retx_count_def OnTimeout_def subscript_def set_insert_def
      ledger_erase_def)

section \<open>The timeout check\<close>

lemma OnTimeout_timeouts_indep:
  assumes "k \<notin> seq_keys l" "k \<notin> seq_keys l'"
  shows "OnTimeout k (s\<lparr> m_seqTimeouts := l' \<rparr>) =
     (fst (OnTimeout k (s\<lparr> m_seqTimeouts := l \<rparr>)) \<lparr> m_seqTimeouts := l' \<rparr>,
      snd (OnTimeout k (s\<lparr> m_seqTimeouts := l \<rparr>)))"
  using assms
  by (simp add: OnTimeout_def ledger_erase_absent split: prod.splits)

lemma OnTimeout_timeouts_absent:
  "k \<notin> seq_keys (m_seqTimeouts s) \<Longrightarrow> m_seqTimeouts (fst (OnTimeout k s)) = m_seqTimeouts s"
  by (simp add: OnTimeout_def ledger_erase_absent split: prod.splits)

lemma seq_keys_dropWhile: "seq_keys (dropWhile P l) \<subseteq> seq_keys l"
  unfolding seq_keys_def by (auto dest: set_dropWhileD)

lemma loop_as_handle_timeouts:
  "m_seqTimeouts s = l \<Longrightarrow> distinct (map seq l) \<Longrightarrow>
   CheckRetxTimeout_loop now rto s =
     handle_timeouts (map seq (takeWhile (expired now rto) l))
       (s\<lparr> m_seqTimeouts := dropWhile (expired now rto) l \<rparr>)"
proof (induction l arbitrary: s)
  case Nil
  then show ?case by (subst CheckRetxTimeout_loop.simps) simp
next
  case (Cons e rest)
  have nk: "seq e \<notin> seq_keys rest"
    using Cons.prems(2) by (simp add: seq_keys_def)
  show ?case
  proof (cases "expired now rto e")
    case False
    then have "\<not> time e + rto \<le> now" by (simp add: expired_def)
    with False Cons.prems(1) show ?thesis
      by (subst CheckRetxTimeout_loop.simps) simp
  next
    case True
    then have le: "time e + rto \<le> now" by (simp add: expired_def)
    let ?s1 = "fst (OnTimeout (seq e) (s\<lparr> m_seqTimeouts := rest \<rparr>))"
    have t1: "m_seqTimeouts ?s1 = rest"
      using OnTimeout_timeouts_absent [of "seq e" "s\<lparr> m_seqTimeouts := rest \<rparr>"] nk by simp
    have d: "distinct (map seq rest)" using Cons.prems(2) by simp
    have ih: "CheckRetxTimeout_loop now rto ?s1 =
        handle_timeouts (map seq (takeWhile (expired now rto) rest))
          (?s1\<lparr> m_seqTimeouts := dropWhile (expired now rto) rest \<rparr>)"
      by (rule Cons.IH [OF t1 d])
    have nk': "seq e \<notin> seq_keys (dropWhile (expired now rto) rest)"
      using nk seq_keys_dropWhile by blast
    have sw: "OnTimeout (seq e) (s\<lparr> m_seqTimeouts := dropWhile (expired now rto) rest \<rparr>) =
        (?s1\<lparr> m_seqTimeouts := dropWhile (expired now rto) rest \<rparr>,
         snd (OnTimeout (seq e) (s\<lparr> m_seqTimeouts := rest \<rparr>)))"
      by (rule OnTimeout_timeouts_indep [OF nk nk'])
    show ?thesis
      using True le Cons.prems(1) ih sw
      by (subst CheckRetxTimeout_loop.simps) (simp add: Let_def)
  qed
qed

lemma sorted_takeWhile_expired:
  "sorted (map time l) \<Longrightarrow> takeWhile (expired now rto) l = filter (expired now rto) l"
proof (induction l)
  case Nil
  then show ?case by simp
next
  case (Cons e l)
  show ?case
  proof (cases "expired now rto e")
    case True
    with Cons show ?thesis by simp
  next
    case False
    have "\<forall>x \<in> set l. \<not> expired now rto x"
      using Cons.prems False by (auto simp: expired_def)
    then have "filter (expired now rto) l = []" by simp
    with False show ?thesis by simp
  qed
qed

lemma sorted_dropWhile_expired:
  "sorted (map time l) \<Longrightarrow>
   dropWhile (expired now rto) l = filter (\<lambda>e. \<not> expired now rto e) l"
proof (induction l)
  case Nil
  then show ?case by simp
next
  case (Cons e l)
  show ?case
  proof (cases "expired now rto e")
    case True
    with Cons show ?thesis by simp
  next
    case False
    have "\<forall>x \<in> set l. \<not> expired now rto x"
      using Cons.prems False by (auto simp: expired_def)
    then have "filter (\<lambda>e. \<not> expired now rto e) l = l" by simp
    with False show ?thesis by simp
  qed
qed

lemma OnTimeout_retxTimer: "m_retxTimer (fst (OnTimeout k s)) = m_retxTimer s"
  by (simp add: OnTimeout_def split: prod.splits)

lemma handle_timeouts_retxTimer: "m_retxTimer (fst (handle_timeouts ks s)) = m_retxTimer s"
  by (induction ks arbitrary: s) (simp_all add: Let_def OnTimeout_retxTimer)

lemma handle_timeouts_timeouts:
  "set ks \<inter> seq_keys (m_seqTimeouts s) = {} \<Longrightarrow>
   m_seqTimeouts (fst (handle_timeouts ks s)) = m_seqTimeouts s"
  by (induction ks arbitrary: s) (simp_all add: Let_def OnTimeout_timeouts_absent)

lemma distinct_take_drop_keys:
  assumes "distinct (map seq l)"
  shows "set (map seq (takeWhile P l)) \<inter> seq_keys (dropWhile P l) = {}"
proof -
  have "distinct (map seq (takeWhile P l) @ map seq (dropWhile P l))"
    using assms by (simp flip: map_append)
  then show ?thesis by (simp add: seq_keys_def)
qed

text \<open>
  Claim C4. For a timeout ledger ordered by send time with one entry per sequence
  number, and every threshold \<open>rto\<close>, a check at time \<open>now\<close> hands to \<open>OnTimeout\<close>, in
  ledger order, exactly the entries with \<open>now - time \<ge> rto\<close>; they form the prefix of the
  ledger that ends before the first entry with \<open>now - time < rto\<close>; the entries from
  there on stay, unchanged; and the last thing the check does is schedule the next
  check after \<open>m_retxTimer\<close>, whether or not an entry expired.
\<close>

theorem CheckRetxTimeout_expired_prefix:
  assumes "ledger_wf (m_seqTimeouts s)"
  shows "CheckRetxTimeout now rto s =
      (let r = handle_timeouts (map seq (filter (expired now rto) (m_seqTimeouts s)))
                 (s\<lparr> m_seqTimeouts := filter (\<lambda>e. \<not> expired now rto e) (m_seqTimeouts s) \<rparr>)
       in (fst r, snd r @ [Schedule_CheckRetxTimeout (m_retxTimer s)]))
    \<and> filter (expired now rto) (m_seqTimeouts s) = takeWhile (expired now rto) (m_seqTimeouts s)
    \<and> m_seqTimeouts (fst (CheckRetxTimeout now rto s))
        = dropWhile (expired now rto) (m_seqTimeouts s)
    \<and> last (snd (CheckRetxTimeout now rto s)) = Schedule_CheckRetxTimeout (m_retxTimer s)"
proof -
  let ?l = "m_seqTimeouts s"
  have so: "sorted (map time ?l)" and di: "distinct (map seq ?l)"
    using assms by (simp_all add: ledger_wf_def)
  have lp: "CheckRetxTimeout_loop now rto s =
      handle_timeouts (map seq (takeWhile (expired now rto) ?l))
        (s\<lparr> m_seqTimeouts := dropWhile (expired now rto) ?l \<rparr>)"
    by (rule loop_as_handle_timeouts [OF refl di])
  have tk: "takeWhile (expired now rto) ?l = filter (expired now rto) ?l"
    by (rule sorted_takeWhile_expired [OF so])
  have dr: "dropWhile (expired now rto) ?l = filter (\<lambda>e. \<not> expired now rto e) ?l"
    by (rule sorted_dropWhile_expired [OF so])
  have dj: "set (map seq (takeWhile (expired now rto) ?l))
      \<inter> seq_keys (m_seqTimeouts (s\<lparr> m_seqTimeouts := dropWhile (expired now rto) ?l \<rparr>)) = {}"
    using distinct_take_drop_keys [OF di] by simp
  have rest: "m_seqTimeouts (fst (CheckRetxTimeout_loop now rto s))
      = dropWhile (expired now rto) ?l"
    unfolding lp using handle_timeouts_timeouts [OF dj] by simp
  have tm: "m_retxTimer (fst (CheckRetxTimeout_loop now rto s)) = m_retxTimer s"
    unfolding lp by (simp add: handle_timeouts_retxTimer)
  show ?thesis
    using lp tk dr rest tm by (simp add: CheckRetxTimeout_def Let_def)
qed

theorem CheckRetxTimeout_expired_prefix_witness:
  "ledger_wf (m_seqTimeouts ex_inflight)
   \<and> filter (expired 210 100) (m_seqTimeouts ex_inflight) = [SeqTimeout 2 100]
   \<and> m_seqTimeouts (fst (CheckRetxTimeout 210 100 ex_inflight)) = [SeqTimeout 0 160]
   \<and> snd (CheckRetxTimeout 210 100 ex_inflight)
       = [Rtt_IncreaseMultiplier, Rtt_SentSeq 2, ScheduleNextPacket, Schedule_CheckRetxTimeout 50]
   \<and> snd (CheckRetxTimeout 170 100 ex_inflight) = [Schedule_CheckRetxTimeout 50]"
proof -
  have wf: "ledger_wf (m_seqTimeouts ex_inflight)"
    by (simp add: ex_inflight_eq ledger_wf_def)
  show ?thesis
    using wf CheckRetxTimeout_expired_prefix [OF wf, of 210 100]
      CheckRetxTimeout_expired_prefix [OF wf, of 170 100]
    by (simp add: ex_inflight_eq expired_def OnTimeout_def subscript_def set_insert_def)
qed

section \<open>The response handler\<close>

text \<open>
  Claim C6. When a Data packet arrives for a sequence number that no ledger, counter
  or set has an entry for, \<open>OnData\<close> returns the consumer as it was and emits neither
  the last-send nor the first-send delay: an active consumer only passes the packet
  to the base class and acknowledges it to the estimator, an inactive one does nothing.
\<close>

theorem OnData_unknown_seq:
  assumes "absent k s"
  shows "OnData now k hopCount s
           = (s, if m_active s then [App_OnData k, Rtt_AckSeq k] else [])
    \<and> filter is_delay_metric (snd (OnData now k hopCount s)) = []"
  using assms
  by (simp add: OnData_def absent_def ledger_find_absent erase_seq_absent)

theorem OnData_unknown_seq_witness:
  "absent 4 ex_inflight
   \<and> OnData 200 4 0 ex_inflight = (ex_inflight, [App_OnData 4, Rtt_AckSeq 4])
   \<and> filter is_delay_metric (snd (OnData 200 4 0 ex_inflight)) = []"
proof -
  have a: "absent 4 ex_inflight"
    by (simp add: ex_inflight_eq absent_def seq_keys_def)
  have m: "m_active ex_inflight"
    by (simp add: ex_inflight_eq)
  show ?thesis
    using a m OnData_unknown_seq [OF a, of 200 0] by simp
qed

text \<open>
  Claim C7. For every sequence number \<open>k\<close>, erasing \<open>k\<close> from the counters, the three
  ledgers and the retransmission set a second time changes nothing, and erasing a
  \<open>k\<close> that is absent from all of them leaves the state as it was. (Erasure is a total
  function of the model: there is no error to raise.)
\<close>

theorem erase_seq_idempotent:
  "erase_seq k (erase_seq k s) = erase_seq k s \<and> (absent k s \<longrightarrow> erase_seq k s = s)"
  by (simp add: erase_seq_idem erase_seq_absent)

theorem erase_seq_idempotent_witness:
  "erase_seq 2 (erase_seq 2 ex_inflight) = erase_seq 2 ex_inflight
   \<and> m_seqTimeouts (erase_seq 2 ex_inflight) = [SeqTimeout 0 160]
   \<and> absent 4 ex_inflight \<and> erase_seq 4 ex_inflight = ex_inflight"
proof -
  have a: "absent 4 ex_inflight"
    by (simp add: ex_inflight_eq absent_def seq_keys_def)
  have t: "m_seqTimeouts (erase_seq 2 ex_inflight) = [SeqTimeout 0 160]"
    by (simp add: ex_inflight_eq erase_seq_def ledger_erase_def)
  show ?thesis
    using a t erase_seq_idempotent [of 2 ex_inflight] erase_seq_idempotent [of 4 ex_inflight]
    by simp
qed

section \<open>The scheduling tick\<close>

lemma ex_sentinel_eq:
  "ex_sentinel =
     \<lparr> m_active = True, m_seq = 0, m_seqMax = 0xFFFFFFFF, m_retxNum = 3, m_retxTimer = 50,
       m_seqTimeouts = [],
       m_seqFullDelay = [SeqTimeout 0xFFFFFFFF 0],
       m_seqLastDelay = [SeqTimeout 0xFFFFFFFF 0],
       m_seqRetxCounts = [0xFFFFFFFF \<mapsto> 1],
       m_retxSeqs = [0xFFFFFFFF] \<rparr>"
  by (simp add: ex_sentinel_def model_defs)

lemma ex_later_run:
  "snd (run ex_sentinel ex_later) =
     [Rtt_SetInterestInfo 0, Cout_SendInterest 0, Trace_transmittedInterests 0,
      Face_onReceiveInterest 0, ScheduleNextPacket,
      Rtt_IncreaseMultiplier, Rtt_SentSeq 0, ScheduleNextPacket, Schedule_CheckRetxTimeout 50,
      Rtt_SetInterestInfo 0, Cout_SendInterest 0, Trace_transmittedInterests 0,
      Face_onReceiveInterest 0, ScheduleNextPacket,
      Rtt_IncreaseMultiplier, Rtt_SentSeq 0, ScheduleNextPacket, Schedule_CheckRetxTimeout 50,
      Rtt_SetInterestInfo 0, Cout_SendInterest 0, Trace_transmittedInterests 0,
      Face_onReceiveInterest 0, ScheduleNextPacket,
      Rtt_IncreaseMultiplier, Rtt_DiscardInterestBySeq 0, Schedule_CheckRetxTimeout 50,
      Rtt_SetInterestInfo 1, Cout_SendInterest 1, Trace_transmittedInterests 1,
      Face_onReceiveInterest 1, ScheduleNextPacket,
      Rtt_IncreaseMultiplier, Rtt_SentSeq 1, ScheduleNextPacket, Schedule_CheckRetxTimeout 50]"
  "m_seqTimeouts (fst (run ex_sentinel ex_later)) = []"
  "m_retxSeqs (fst (run ex_sentinel ex_later)) = [1]"
  "m_seqFullDelay (fst (run ex_sentinel ex_later)) = [SeqTimeout uint32_max 0, SeqTimeout 1 200]"
  "m_seqRetxCounts (fst (run ex_sentinel ex_later)) uint32_max = Some 1"
  by (simp_all add: ex_sentinel_eq ex_later_def model_defs)

lemma SendPacket_cases:
  "SendPacket now s =
     (if \<not> m_active s then (s, [])
      else if m_retxSeqs s \<noteq> [] \<and> hd (m_retxSeqs s) \<noteq> uint32_max
      then SendPacket_send now (hd (m_retxSeqs s)) (s\<lparr> m_retxSeqs := tl (m_retxSeqs s) \<rparr>)
      else if m_seqMax s \<noteq> uint32_max \<and> m_seqMax s \<le> m_seq s
      then (s\<lparr> m_retxSeqs := tl (m_retxSeqs s) \<rparr>, [])
      else SendPacket_send now (m_seq s)
             (s\<lparr> m_retxSeqs := tl (m_retxSeqs s), m_seq := m_seq s + 1 \<rparr>))"
  by (cases s) (auto simp: SendPacket_def)

lemma SendPacket_send_effects:
  "snd (SendPacket_send now k s) =
     [Rtt_SetInterestInfo k, Cout_SendInterest k, Trace_transmittedInterests k,
      Face_onReceiveInterest k, ScheduleNextPacket]"
  by (simp add: SendPacket_send_def WaitBeforeSendOutInterest_def)

text \<open>
  What the tick does on every input but one. An inactive consumer does nothing. If the
  retransmission set is non-empty and its smallest element is not \<open>0xFFFFFFFF\<close>, the
  tick removes the first element, which is the smallest, and resends it. If the set is
  empty and a limit is configured that the counter has reached, it sends nothing. If
  the set is empty and there is no limit or the counter is below it, it sends the
  counter's value as a fresh sequence number and increments the counter.
\<close>

lemma SendPacket_policy:
  assumes "retx_wf (m_retxSeqs s)"
  shows "(\<not> m_active s \<longrightarrow> SendPacket now s = (s, []))
    \<and> (m_active s \<and> m_retxSeqs s \<noteq> [] \<and> Min (set (m_retxSeqs s)) \<noteq> uint32_max \<longrightarrow>
         hd (m_retxSeqs s) = Min (set (m_retxSeqs s))
         \<and> set (tl (m_retxSeqs s)) = set (m_retxSeqs s) - {Min (set (m_retxSeqs s))}
         \<and> SendPacket now s = SendPacket_send now (Min (set (m_retxSeqs s)))
                                 (s\<lparr> m_retxSeqs := tl (m_retxSeqs s) \<rparr>)
         \<and> Face_onReceiveInterest (Min (set (m_retxSeqs s))) \<in> set (snd (SendPacket now s)))
    \<and> (m_active s \<and> m_retxSeqs s = [] \<and> m_seqMax s \<noteq> uint32_max \<and> m_seqMax s \<le> m_seq s \<longrightarrow>
         SendPacket now s = (s, []))
    \<and> (m_active s \<and> m_retxSeqs s = [] \<and> (m_seqMax s = uint32_max \<or> m_seq s < m_seqMax s) \<longrightarrow>
         SendPacket now s = SendPacket_send now (m_seq s) (s\<lparr> m_seq := m_seq s + 1 \<rparr>)
         \<and> Face_onReceiveInterest (m_seq s) \<in> set (snd (SendPacket now s)))"
proof -
  have so: "sorted (m_retxSeqs s)" and di: "distinct (m_retxSeqs s)"
    using assms by (simp_all add: retx_wf_def)
  have mn: "m_retxSeqs s \<noteq> [] \<Longrightarrow> hd (m_retxSeqs s) = Min (set (m_retxSeqs s))"
    by (rule hd_sorted_Min [OF so])
  have tl: "m_retxSeqs s \<noteq> [] \<Longrightarrow>
      set (tl (m_retxSeqs s)) = set (m_retxSeqs s) - {Min (set (m_retxSeqs s))}"
    using set_tl_distinct [OF di] mn by simp
  show ?thesis
    using mn tl
    by (cases s) (auto simp: SendPacket_cases SendPacket_send_effects not_le)
qed

lemma SendPacket_policy_examples:
  "retx_wf (m_retxSeqs ex_inflight) \<and> m_active ex_inflight \<and> m_retxSeqs ex_inflight \<noteq> []
   \<and> Min (set (m_retxSeqs ex_inflight)) \<noteq> uint32_max
   \<and> hd (m_retxSeqs ex_inflight) = Min (set (m_retxSeqs ex_inflight))
   \<and> SendPacket 200 ex_inflight =
       SendPacket_send 200 (Min (set (m_retxSeqs ex_inflight)))
         (ex_inflight\<lparr> m_retxSeqs := tl (m_retxSeqs ex_inflight) \<rparr>)
   \<and> Min (set (m_retxSeqs ex_inflight)) = 1
   \<and> retx_wf (m_retxSeqs ex_limited) \<and> m_active ex_limited \<and> m_retxSeqs ex_limited = []
   \<and> m_seq ex_limited < m_seqMax ex_limited
   \<and> SendPacket 0 ex_limited = SendPacket_send 0 (m_seq ex_limited) (ex_limited\<lparr> m_seq := 1 \<rparr>)
   \<and> \<not> m_active (Consumer False 50)
   \<and> SendPacket 0 (Consumer False 50) = (Consumer False 50, [])
   \<and> m_seqMax (Consumer True 50) \<le> m_seq (Consumer True 50)
   \<and> SendPacket 0 (Consumer True 50) = (Consumer True 50, [])"
proof -
  have w: "retx_wf (m_retxSeqs ex_inflight)"
    by (simp add: ex_inflight_eq retx_wf_def)
  have a: "m_active ex_inflight" "m_retxSeqs ex_inflight \<noteq> []"
    "Min (set (m_retxSeqs ex_inflight)) \<noteq> uint32_max" "Min (set (m_retxSeqs ex_inflight)) = 1"
    by (simp_all add: ex_inflight_eq uint32_max_def)
  have w0: "retx_wf (m_retxSeqs (Consumer a t))" for a t
    by (simp add: Consumer_def retx_wf_def)
  have c: "\<not> m_active (Consumer False 50)" "m_active (Consumer True 50)"
    "m_retxSeqs (Consumer True 50) = []" "m_seqMax (Consumer True 50) \<noteq> uint32_max"
    "m_seqMax (Consumer True 50) \<le> m_seq (Consumer True 50)"
    by (simp_all add: Consumer_def uint32_max_def)
  have w1: "retx_wf (m_retxSeqs ex_limited)"
    by (simp add: ex_limited_def Consumer_def retx_wf_def)
  have l: "m_active ex_limited" "m_retxSeqs ex_limited = []" "m_seq ex_limited < m_seqMax ex_limited"
    "m_seq ex_limited + 1 = 1"
    by (simp_all add: ex_limited_def Consumer_def)
  show ?thesis
    using w a w0 c w1 l SendPacket_policy [OF w, of 200]
      SendPacket_policy [OF w0, of False 50 0]
      SendPacket_policy [OF w0, of True 50 0] SendPacket_policy [OF w1, of 0]
    by simp
qed

text \<open>
  Claim C5 says that a tick with a non-empty retransmission set removes the first
  element and resends it, and the comment in \<open>SendPacket\<close> says the same: "If there is
  something need to be retransmitted / Select the 1st one in this set and to send it".
  The code does not when that element is \<open>0xFFFFFFFF\<close>, the value its local \<open>seq\<close>
  starts with to mean that nothing was chosen. \<open>ex_sentinel\<close> is reached by an active
  consumer with no sequence limit that starts at \<open>0xFFFFFFFF\<close>, by one tick and one
  timeout check that finds the send expired; its retransmission set is
  \<open>{0xFFFFFFFF}\<close>. The next tick removes that element and does not resend it: it
  mints and sends sequence number 0 instead. \<open>0xFFFFFFFF\<close> is left with its entries
  in the first-send ledger, the last-send ledger and the counters, and with no timeout
  entry and no place in the retransmission set, so that no later tick or timeout check
  comes to it: in \<open>ex_later\<close>, which starts with that tick, sequence number 0 is sent
  three times and discarded and sequence number 1 is sent and times out, while
  \<open>0xFFFFFFFF\<close> is neither sent nor discarded and keeps its entries.
\<close>

theorem SendPacket_drops_sentinel:
  "m_active ex_sentinel \<and> m_retxSeqs ex_sentinel = [uint32_max]
   \<and> snd (SendPacket 50 ex_sentinel) =
       [Rtt_SetInterestInfo 0, Cout_SendInterest 0, Trace_transmittedInterests 0,
        Face_onReceiveInterest 0, ScheduleNextPacket]
   \<and> Face_onReceiveInterest uint32_max \<notin> set (snd (SendPacket 50 ex_sentinel))
   \<and> m_retxSeqs (fst (SendPacket 50 ex_sentinel)) = []
   \<and> m_seq (fst (SendPacket 50 ex_sentinel)) = 1
   \<and> m_seqTimeouts (fst (SendPacket 50 ex_sentinel)) = [SeqTimeout 0 50]
   \<and> m_seqFullDelay (fst (SendPacket 50 ex_sentinel)) = [SeqTimeout uint32_max 0, SeqTimeout 0 50]
   \<and> m_seqLastDelay (fst (SendPacket 50 ex_sentinel)) = [SeqTimeout uint32_max 0, SeqTimeout 0 50]
   \<and> m_seqRetxCounts (fst (SendPacket 50 ex_sentinel)) uint32_max = Some 1
   \<and> Face_onReceiveInterest uint32_max \<notin> set (snd (run ex_sentinel ex_later))
   \<and> Rtt_DiscardInterestBySeq uint32_max \<notin> set (snd (run ex_sentinel ex_later))
   \<and> Rtt_DiscardInterestBySeq 0 \<in> set (snd (run ex_sentinel ex_later))
   \<and> m_seqTimeouts (fst (run ex_sentinel ex_later)) = []
   \<and> m_retxSeqs (fst (run ex_sentinel ex_later)) = [1]
   \<and> m_seqFullDelay (fst (run ex_sentinel ex_later)) = [SeqTimeout uint32_max 0, SeqTimeout 1 200]
   \<and> m_seqRetxCounts (fst (run ex_sentinel ex_later)) uint32_max = Some 1"
  by (simp add: ex_later_run) (simp add: ex_sentinel_eq model_defs)

section \<open>Invariants of the ledgers\<close>

text \<open>
  \<open>containers_wf\<close>: what the container types guarantee. \<open>ledger_inv\<close>: the counters,
  the first-send ledger and the last-send ledger have the same keys, and the timeout
  ledger has some of them. \<open>retx_disjoint\<close>: a sequence number waiting in the
  retransmission set has no timeout entry. A new consumer satisfies all three
  (\<open>consumer_inv_Consumer\<close>) and every event preserves them (\<open>consumer_inv_run\<close>).
\<close>

definition containers_wf :: "consumer \<Rightarrow> bool" where
  "containers_wf s = (ledger_wf (m_seqTimeouts s) \<and> ledger_wf (m_seqFullDelay s)
     \<and> ledger_wf (m_seqLastDelay s) \<and> retx_wf (m_retxSeqs s))"

definition ledger_inv :: "consumer \<Rightarrow> bool" where
  "ledger_inv s = (dom (m_seqRetxCounts s) = seq_keys (m_seqFullDelay s)
     \<and> seq_keys (m_seqLastDelay s) = seq_keys (m_seqFullDelay s)
     \<and> seq_keys (m_seqTimeouts s) \<subseteq> seq_keys (m_seqFullDelay s))"

definition retx_disjoint :: "consumer \<Rightarrow> bool" where
  "retx_disjoint s = (set (m_retxSeqs s) \<inter> seq_keys (m_seqTimeouts s) = {})"

definition consumer_inv :: "consumer \<Rightarrow> bool" where
  "consumer_inv s = (containers_wf s \<and> ledger_inv s \<and> retx_disjoint s)"

lemma set_ins_time: "set (ins_time e l) = insert e (set l)"
  by (induction l) auto

lemma seq_keys_ins_time: "seq_keys (ins_time e l) = insert (seq e) (seq_keys l)"
  by (simp add: seq_keys_def set_ins_time)

lemma seq_keys_ledger_insert: "seq_keys (ledger_insert e l) = insert (seq e) (seq_keys l)"
  by (auto simp: ledger_insert_def seq_keys_ins_time)

lemma sorted_ins_time: "sorted (map time l) \<Longrightarrow> sorted (map time (ins_time e l))"
  by (induction l) (auto simp: set_ins_time)

lemma distinct_ins_time:
  "seq e \<notin> seq_keys l \<Longrightarrow> distinct (map seq l) \<Longrightarrow> distinct (map seq (ins_time e l))"
  by (induction l) (auto simp: set_ins_time seq_keys_def)

lemma ledger_wf_insert: "ledger_wf l \<Longrightarrow> ledger_wf (ledger_insert e l)"
  by (simp add: ledger_wf_def ledger_insert_def sorted_ins_time distinct_ins_time)

lemma ledger_wf_erase: "ledger_wf l \<Longrightarrow> ledger_wf (ledger_erase k l)"
  by (simp add: ledger_wf_def ledger_erase_def sorted_filter distinct_map_filter)

lemma ledger_wf_Cons: "ledger_wf (e # rest) \<Longrightarrow> ledger_wf rest \<and> seq e \<notin> seq_keys rest"
  by (simp add: ledger_wf_def seq_keys_def)

lemma retx_wf_insert: "retx_wf xs \<Longrightarrow> retx_wf (set_insert k xs)"
  by (simp add: retx_wf_def set_insert_def sorted_insort distinct_insort)

lemma retx_wf_erase: "retx_wf xs \<Longrightarrow> retx_wf (set_erase k xs)"
  by (simp add: retx_wf_def set_erase_def sorted_filter[where f="\<lambda>x. x", simplified])

lemma retx_wf_tl: "retx_wf xs \<Longrightarrow> retx_wf (tl xs)"
  by (cases xs) (simp_all add: retx_wf_def)

lemma retx_wf_hd_notin_tl: "retx_wf xs \<Longrightarrow> xs \<noteq> [] \<Longrightarrow> hd xs \<notin> set (tl xs)"
  by (cases xs) (simp_all add: retx_wf_def)

lemma set_tl_subset: "set (tl xs) \<subseteq> set xs"
  by (cases xs) auto

lemma le_uint32_max: "y \<le> uint32_max"
  using uint_lt2p [of y] by (simp add: uint32_max_def word_le_def)

text \<open>The only ordered set whose first element is the largest value is the singleton.\<close>

lemma retx_wf_hd_max:
  assumes "retx_wf xs" "xs \<noteq> []" "hd xs = uint32_max"
  shows "tl xs = []"
proof (cases xs)
  case Nil
  with assms(2) show ?thesis by simp
next
  case (Cons x ys)
  have x: "x = uint32_max" using Cons assms(3) by simp
  have "\<forall>y \<in> set ys. x \<le> y" and d: "x \<notin> set ys"
    using Cons assms(1) by (auto simp: retx_wf_def)
  then have "\<forall>y \<in> set ys. y = x"
    using x le_uint32_max by (auto intro: antisym)
  with d have "ys = []" by (cases ys) auto
  with Cons show ?thesis by simp
qed

lemma OnData_state: "fst (OnData now k h s) = (if m_active s then erase_seq k s else s)"
  by (simp add: OnData_def erase_seq_def subscript_def Let_def split: option.splits prod.splits)

subsection \<open>The send bookkeeping preserves the invariant\<close>

lemma containers_wf_WaitBefore:
  "containers_wf s \<Longrightarrow> containers_wf (fst (WaitBeforeSendOutInterest now k s))"
  by (simp add: containers_wf_def WaitBeforeSendOutInterest_def ledger_wf_insert ledger_wf_erase)

lemma ledger_inv_WaitBefore:
  "ledger_inv s \<Longrightarrow> ledger_inv (fst (WaitBeforeSendOutInterest now k s))"
  by (auto simp: ledger_inv_def WaitBeforeSendOutInterest_def seq_keys_ledger_insert
      seq_keys_ledger_erase subscript_def split: option.splits)

lemma consumer_inv_WaitBefore:
  assumes "consumer_inv s" "k \<notin> set (m_retxSeqs s)"
  shows "consumer_inv (fst (WaitBeforeSendOutInterest now k s))"
proof -
  have "retx_disjoint (fst (WaitBeforeSendOutInterest now k s))"
    using assms
    by (simp add: consumer_inv_def retx_disjoint_def WaitBeforeSendOutInterest_def
        seq_keys_ledger_insert)
  then show ?thesis
    using assms(1) by (simp add: consumer_inv_def containers_wf_WaitBefore ledger_inv_WaitBefore)
qed

lemma fst_SendPacket_send:
  "fst (SendPacket_send now k s) = fst (WaitBeforeSendOutInterest now k s)"
  by (simp add: SendPacket_send_def Let_def)

subsection \<open>The tick preserves the invariant\<close>

lemma consumer_inv_retx_tl:
  "consumer_inv s \<Longrightarrow> consumer_inv (s\<lparr> m_retxSeqs := tl (m_retxSeqs s) \<rparr>)"
  using set_tl_subset [of "m_retxSeqs s"]
  by (auto simp: consumer_inv_def containers_wf_def ledger_inv_def retx_disjoint_def retx_wf_tl)

lemma consumer_inv_seq_upd: "consumer_inv (s\<lparr> m_seq := x \<rparr>) = consumer_inv s"
  by (simp add: consumer_inv_def containers_wf_def ledger_inv_def retx_disjoint_def)

lemma consumer_inv_SendPacket:
  assumes "consumer_inv s"
  shows "consumer_inv (fst (SendPacket now s))"
proof -
  let ?s1 = "s\<lparr> m_retxSeqs := tl (m_retxSeqs s) \<rparr>"
  have i1: "consumer_inv ?s1" by (rule consumer_inv_retx_tl [OF assms])
  have wf: "retx_wf (m_retxSeqs s)"
    using assms by (simp add: consumer_inv_def containers_wf_def)
  show ?thesis
  proof (cases "m_active s")
    case False
    with assms show ?thesis by (simp add: SendPacket_cases)
  next
    case act: True
    show ?thesis
    proof (cases "m_retxSeqs s \<noteq> [] \<and> hd (m_retxSeqs s) \<noteq> uint32_max")
      case True
      then have "hd (m_retxSeqs s) \<notin> set (m_retxSeqs ?s1)"
        using retx_wf_hd_notin_tl [OF wf] by simp
      then have "consumer_inv (fst (WaitBeforeSendOutInterest now (hd (m_retxSeqs s)) ?s1))"
        by (rule consumer_inv_WaitBefore [OF i1])
      with act True show ?thesis by (simp add: SendPacket_cases fst_SendPacket_send)
    next
      case False
      then have e: "tl (m_retxSeqs s) = []"
        using retx_wf_hd_max [OF wf] by (cases "m_retxSeqs s = []") auto
      let ?s2 = "?s1\<lparr> m_seq := m_seq s + 1 \<rparr>"
      have i2: "consumer_inv ?s2" using i1 by (simp only: consumer_inv_seq_upd)
      have "m_seq s \<notin> set (m_retxSeqs ?s2)" using e by simp
      then have "consumer_inv (fst (WaitBeforeSendOutInterest now (m_seq s) ?s2))"
        by (rule consumer_inv_WaitBefore [OF i2])
      with act False i1 show ?thesis by (auto simp: SendPacket_cases fst_SendPacket_send)
    qed
  qed
qed

subsection \<open>The response handler preserves the invariant\<close>

lemma consumer_inv_erase_seq: "consumer_inv s \<Longrightarrow> consumer_inv (erase_seq k s)"
  by (auto simp: consumer_inv_def containers_wf_def ledger_inv_def retx_disjoint_def erase_seq_def
      ledger_wf_erase retx_wf_erase seq_keys_ledger_erase set_set_erase)

lemma consumer_inv_OnData: "consumer_inv s \<Longrightarrow> consumer_inv (fst (OnData now k h s))"
  by (simp add: OnData_state consumer_inv_erase_seq)

subsection \<open>The timeout handler preserves the invariant\<close>

lemma ledger_inv_OnTimeout:
  "ledger_inv s \<Longrightarrow> k \<in> dom (m_seqRetxCounts s) \<Longrightarrow> ledger_inv (fst (OnTimeout k s))"
  by (auto simp: ledger_inv_def OnTimeout_def subscript_def seq_keys_ledger_erase
      split: option.splits if_splits)

lemma consumer_inv_OnTimeout:
  assumes "consumer_inv s" "k \<in> dom (m_seqRetxCounts s)" "k \<notin> seq_keys (m_seqTimeouts s)"
  shows "consumer_inv (fst (OnTimeout k s))"
proof -
  have "containers_wf (fst (OnTimeout k s))"
    using assms(1)
    by (auto simp: consumer_inv_def containers_wf_def OnTimeout_def ledger_wf_erase retx_wf_insert
        split: prod.splits)
  moreover have "retx_disjoint (fst (OnTimeout k s))"
    using assms
    by (auto simp: consumer_inv_def retx_disjoint_def OnTimeout_def set_set_insert
        seq_keys_ledger_erase split: prod.splits)
  ultimately show ?thesis
    using assms(1,2) by (simp add: consumer_inv_def ledger_inv_OnTimeout)
qed

subsection \<open>The timeout check preserves the invariant\<close>

lemma loop_expired:
  assumes "m_seqTimeouts s = e # rest" "time e + rto \<le> now"
  shows "fst (CheckRetxTimeout_loop now rto s) =
      fst (CheckRetxTimeout_loop now rto (fst (OnTimeout (seq e) (s\<lparr> m_seqTimeouts := rest \<rparr>))))"
    and "snd (CheckRetxTimeout_loop now rto s) =
      snd (OnTimeout (seq e) (s\<lparr> m_seqTimeouts := rest \<rparr>)) @
      snd (CheckRetxTimeout_loop now rto (fst (OnTimeout (seq e) (s\<lparr> m_seqTimeouts := rest \<rparr>))))"
  using assms by (simp_all add: loop_Cons split: prod.splits)

lemma loop_fresh:
  assumes "m_seqTimeouts s = e # rest" "\<not> time e + rto \<le> now"
  shows "CheckRetxTimeout_loop now rto s = (s, [])"
  using assms by (simp add: loop_Cons)

lemma run_Cons_fst: "fst (run s (e # es)) = fst (run (fst (step s e)) es)"
  by (simp split: prod.splits)

lemma run_Cons_snd: "snd (run s (e # es)) = snd (step s e) @ snd (run (fst (step s e)) es)"
  by (simp split: prod.splits)

lemma consumer_inv_timeouts_tl:
  assumes "consumer_inv s" "m_seqTimeouts s = e # rest"
  shows "consumer_inv (s\<lparr> m_seqTimeouts := rest \<rparr>)"
    and "seq e \<in> dom (m_seqRetxCounts s)" and "seq e \<notin> seq_keys rest"
    and "seq e \<notin> set (m_retxSeqs s)"
proof -
  have wf: "ledger_wf (e # rest)" using assms by (simp add: consumer_inv_def containers_wf_def)
  note c = ledger_wf_Cons [OF wf]
  show "seq e \<notin> seq_keys rest" using c by simp
  show "seq e \<in> dom (m_seqRetxCounts s)"
    using assms by (auto simp: consumer_inv_def ledger_inv_def seq_keys_Cons)
  show "seq e \<notin> set (m_retxSeqs s)"
    using assms by (auto simp: consumer_inv_def retx_disjoint_def seq_keys_Cons)
  show "consumer_inv (s\<lparr> m_seqTimeouts := rest \<rparr>)"
    using assms c
    by (auto simp: consumer_inv_def containers_wf_def ledger_inv_def retx_disjoint_def seq_keys_Cons)
qed

lemma consumer_inv_loop:
  "consumer_inv s \<Longrightarrow> consumer_inv (fst (CheckRetxTimeout_loop now rto s))"
proof (induction now rto s rule: CheckRetxTimeout_loop.induct)
  case (1 now rto s)
  show ?case
  proof (cases "m_seqTimeouts s")
    case Nil
    then show ?thesis using "1.prems" by (simp add: loop_Nil)
  next
    case (Cons e rest)
    show ?thesis
    proof (cases "time e + rto \<le> now")
      case False
      then show ?thesis using "1.prems" Cons by (simp add: loop_fresh)
    next
      case True
      let ?r1 = "OnTimeout (seq e) (s\<lparr> m_seqTimeouts := rest \<rparr>)"
      note t = consumer_inv_timeouts_tl [OF "1.prems" Cons]
      have "consumer_inv (fst ?r1)"
        using t by (intro consumer_inv_OnTimeout) simp_all
      then have "consumer_inv (fst (CheckRetxTimeout_loop now rto (fst ?r1)))"
        by (rule "1.IH" [OF Cons True refl])
      then show ?thesis using Cons True by (simp add: loop_expired)
    qed
  qed
qed

lemma consumer_inv_CheckRetxTimeout:
  "consumer_inv s \<Longrightarrow> consumer_inv (fst (CheckRetxTimeout now rto s))"
  by (simp add: CheckRetxTimeout_def Let_def consumer_inv_loop)

lemma consumer_inv_step: "consumer_inv s \<Longrightarrow> consumer_inv (fst (step s e))"
  by (cases e) (simp_all add: consumer_inv_SendPacket consumer_inv_CheckRetxTimeout consumer_inv_OnData)

lemma consumer_inv_run: "consumer_inv s \<Longrightarrow> consumer_inv (fst (run s es))"
  by (induction es arbitrary: s) (simp_all add: run_Cons_fst consumer_inv_step del: run.simps(2))

lemma consumer_inv_Consumer: "consumer_inv (Consumer a t)"
  by (simp add: consumer_inv_def containers_wf_def ledger_inv_def retx_disjoint_def Consumer_def
      ledger_wf_def retx_wf_def seq_keys_def)

section \<open>Observations on the effects of a run\<close>

text \<open>
  A sequence number is in flight while the first-send ledger has it. \<open>pending_inv\<close>:
  the numbers waiting in the retransmission set are in flight and their counters are
  below the retry budget (the timeout handler has checked that). \<open>full_inv\<close> adds this
  to \<open>consumer_inv\<close>; it too holds for a new consumer and is preserved by every event
  (\<open>full_inv_Consumer\<close>, \<open>full_inv_run\<close>).

  \<open>sends\<close>, \<open>discards\<close>, \<open>first_delays\<close> and \<open>last_delays\<close> count, in a list of
  effects, the Interests handed to the face for a sequence number, the discards of it
  announced to the estimator, and the two delay traces for it.
\<close>

definition inflight :: "consumer \<Rightarrow> seqno \<Rightarrow> bool" where
  "inflight s k = (k \<in> seq_keys (m_seqFullDelay s))"

definition pending_inv :: "consumer \<Rightarrow> bool" where
  "pending_inv s = (set (m_retxSeqs s) \<subseteq> seq_keys (m_seqFullDelay s)
     \<and> (\<forall>k \<in> set (m_retxSeqs s). retx_count s k < m_retxNum s))"

definition full_inv :: "consumer \<Rightarrow> bool" where
  "full_inv s = (consumer_inv s \<and> pending_inv s)"

definition sends :: "seqno \<Rightarrow> effect list \<Rightarrow> nat" where
  "sends k effs = count_list effs (Face_onReceiveInterest k)"

definition discards :: "seqno \<Rightarrow> effect list \<Rightarrow> nat" where
  "discards k effs = count_list effs (Rtt_DiscardInterestBySeq k)"

fun is_first_delay :: "seqno \<Rightarrow> effect \<Rightarrow> bool" where
  "is_first_delay k (Trace_firstInterestDataDelay k' d c h) = (k' = k)"
| "is_first_delay k e = False"

fun is_last_delay :: "seqno \<Rightarrow> effect \<Rightarrow> bool" where
  "is_last_delay k (Trace_lastRetransmittedInterestDataDelay k' d h) = (k' = k)"
| "is_last_delay k e = False"

definition first_delays :: "seqno \<Rightarrow> effect list \<Rightarrow> nat" where
  "first_delays k effs = length (filter (is_first_delay k) effs)"

definition last_delays :: "seqno \<Rightarrow> effect list \<Rightarrow> nat" where
  "last_delays k effs = length (filter (is_last_delay k) effs)"

fun is_SentSeq :: "effect \<Rightarrow> bool" where
  "is_SentSeq (Rtt_SentSeq k) = True"
| "is_SentSeq e = False"

lemma sends_append [simp]: "sends k (a @ b) = sends k a + sends k b"
  by (simp add: sends_def)

lemma discards_append [simp]: "discards k (a @ b) = discards k a + discards k b"
  by (simp add: discards_def)

lemma first_delays_append [simp]: "first_delays k (a @ b) = first_delays k a + first_delays k b"
  by (simp add: first_delays_def)

lemma last_delays_append [simp]: "last_delays k (a @ b) = last_delays k a + last_delays k b"
  by (simp add: last_delays_def)

lemma counts_Nil [simp]:
  "sends k [] = 0" "discards k [] = 0" "first_delays k [] = 0" "last_delays k [] = 0"
  by (simp_all add: sends_def discards_def first_delays_def last_delays_def)

subsection \<open>What the send bookkeeping changes\<close>

lemma WaitBefore_view:
  "seq_keys (m_seqTimeouts (fst (WaitBeforeSendOutInterest now k s))) = insert k (seq_keys (m_seqTimeouts s))"
  "seq_keys (m_seqFullDelay (fst (WaitBeforeSendOutInterest now k s))) = insert k (seq_keys (m_seqFullDelay s))"
  "seq_keys (m_seqLastDelay (fst (WaitBeforeSendOutInterest now k s))) = insert k (seq_keys (m_seqLastDelay s))"
  "m_retxSeqs (fst (WaitBeforeSendOutInterest now k s)) = m_retxSeqs s"
  "m_seq (fst (WaitBeforeSendOutInterest now k s)) = m_seq s"
  "m_seqMax (fst (WaitBeforeSendOutInterest now k s)) = m_seqMax s"
  "m_retxNum (fst (WaitBeforeSendOutInterest now k s)) = m_retxNum s"
  "m_active (fst (WaitBeforeSendOutInterest now k s)) = m_active s"
  "m_retxTimer (fst (WaitBeforeSendOutInterest now k s)) = m_retxTimer s"
  "retx_count (fst (WaitBeforeSendOutInterest now k s)) k' =
     (if k' = k then retx_count s k + 1 else retx_count s k')"
  by (auto simp: WaitBeforeSendOutInterest_def seq_keys_ledger_insert seq_keys_ledger_erase
      retx_count_def subscript_def split: option.splits)

lemma SendPacket_send_counts:
  "sends k (snd (SendPacket_send now x s)) = (if x = k then 1 else 0)"
  "discards k (snd (SendPacket_send now x s)) = 0"
  "first_delays k (snd (SendPacket_send now x s)) = 0"
  "last_delays k (snd (SendPacket_send now x s)) = 0"
  "filter is_SentSeq (snd (SendPacket_send now x s)) = []"
  by (simp_all add: SendPacket_send_effects sends_def discards_def first_delays_def last_delays_def)

subsection \<open>What the timeout handler changes\<close>

lemma OnTimeout_scalars:
  "m_seq (fst (OnTimeout k s)) = m_seq s"
  "m_seqMax (fst (OnTimeout k s)) = m_seqMax s"
  "m_retxNum (fst (OnTimeout k s)) = m_retxNum s"
  "m_active (fst (OnTimeout k s)) = m_active s"
  by (simp_all add: OnTimeout_def split: prod.splits)

lemma OnTimeout_retry_view:
  assumes "retx_count s k < m_retxNum s"
  shows "m_seqTimeouts (fst (OnTimeout k s)) = m_seqTimeouts s"
    "m_seqFullDelay (fst (OnTimeout k s)) = m_seqFullDelay s"
    "m_seqLastDelay (fst (OnTimeout k s)) = m_seqLastDelay s"
    "m_retxSeqs (fst (OnTimeout k s)) = set_insert k (m_retxSeqs s)"
    "retx_count (fst (OnTimeout k s)) k' = retx_count s k'"
    "snd (OnTimeout k s) = [Rtt_IncreaseMultiplier, Rtt_SentSeq k, ScheduleNextPacket]"
  using assms
  by (auto simp: OnTimeout_def retx_count_def subscript_def split: option.splits)

lemma OnTimeout_discard_view:
  assumes "\<not> retx_count s k < m_retxNum s"
  shows "m_seqTimeouts (fst (OnTimeout k s)) = ledger_erase k (m_seqTimeouts s)"
    "m_seqFullDelay (fst (OnTimeout k s)) = ledger_erase k (m_seqFullDelay s)"
    "m_seqLastDelay (fst (OnTimeout k s)) = ledger_erase k (m_seqLastDelay s)"
    "m_retxSeqs (fst (OnTimeout k s)) = m_retxSeqs s"
    "retx_count (fst (OnTimeout k s)) k' = (if k' = k then 0 else retx_count s k')"
    "snd (OnTimeout k s) = [Rtt_IncreaseMultiplier, Rtt_DiscardInterestBySeq k]"
  using assms
  by (auto simp: OnTimeout_def retx_count_def subscript_def split: option.splits)

lemma pending_inv_OnTimeout:
  assumes "pending_inv s" "ledger_inv s" "k \<in> dom (m_seqRetxCounts s)" "k \<notin> set (m_retxSeqs s)"
  shows "pending_inv (fst (OnTimeout k s))"
proof (cases "retx_count s k < m_retxNum s")
  case True
  then show ?thesis
    using assms
    by (auto simp: pending_inv_def ledger_inv_def OnTimeout_retry_view OnTimeout_scalars set_set_insert)
next
  case False
  then show ?thesis
    using assms
    by (auto simp: pending_inv_def OnTimeout_discard_view OnTimeout_scalars seq_keys_ledger_erase)
qed

lemma full_inv_OnTimeout:
  assumes "full_inv s" "k \<in> dom (m_seqRetxCounts s)" "k \<notin> seq_keys (m_seqTimeouts s)"
    "k \<notin> set (m_retxSeqs s)"
  shows "full_inv (fst (OnTimeout k s))"
proof -
  have c: "consumer_inv s" and p: "pending_inv s" and l: "ledger_inv s"
    using assms(1) by (simp_all add: full_inv_def consumer_inv_def)
  show ?thesis
    using consumer_inv_OnTimeout [OF c assms(2,3)] pending_inv_OnTimeout [OF p l assms(2,4)]
    by (simp add: full_inv_def)
qed

lemma full_inv_timeouts_tl:
  assumes "full_inv s" "m_seqTimeouts s = e # rest"
  shows "full_inv (s\<lparr> m_seqTimeouts := rest \<rparr>)"
  using assms consumer_inv_timeouts_tl(1) [of s e rest]
  by (simp add: full_inv_def pending_inv_def retx_count_def)

text \<open>Induction over the iterations of the loop, for states that satisfy the invariant.\<close>

lemma loop_rule:
  assumes inv: "full_inv s"
    and stop: "\<And>s. full_inv s \<Longrightarrow> P s (s, [])"
    and iter: "\<And>s e rest r.
        full_inv s \<Longrightarrow> m_seqTimeouts s = e # rest \<Longrightarrow>
        full_inv (s\<lparr> m_seqTimeouts := rest \<rparr>) \<Longrightarrow>
        seq e \<in> dom (m_seqRetxCounts s) \<Longrightarrow> seq e \<notin> seq_keys rest \<Longrightarrow>
        seq e \<notin> set (m_retxSeqs s) \<Longrightarrow>
        full_inv (fst (OnTimeout (seq e) (s\<lparr> m_seqTimeouts := rest \<rparr>))) \<Longrightarrow>
        P (fst (OnTimeout (seq e) (s\<lparr> m_seqTimeouts := rest \<rparr>))) r \<Longrightarrow>
        P s (fst r, snd (OnTimeout (seq e) (s\<lparr> m_seqTimeouts := rest \<rparr>)) @ snd r)"
  shows "P s (CheckRetxTimeout_loop now rto s)"
  using inv
proof (induction now rto s rule: CheckRetxTimeout_loop.induct)
  case (1 now rto s)
  show ?case
  proof (cases "m_seqTimeouts s")
    case Nil
    then show ?thesis using stop [OF "1.prems"] by (simp add: loop_Nil)
  next
    case (Cons e rest)
    show ?thesis
    proof (cases "time e + rto \<le> now")
      case False
      then show ?thesis using stop [OF "1.prems"] Cons by (simp add: loop_fresh)
    next
      case True
      let ?s0 = "s\<lparr> m_seqTimeouts := rest \<rparr>"
      let ?r1 = "OnTimeout (seq e) ?s0"
      have ci: "consumer_inv s" using "1.prems" by (simp add: full_inv_def)
      note t = consumer_inv_timeouts_tl [OF ci Cons]
      have f0: "full_inv ?s0" by (rule full_inv_timeouts_tl [OF "1.prems" Cons])
      have f1: "full_inv (fst ?r1)"
        using t by (intro full_inv_OnTimeout [OF f0]) simp_all
      have ih: "P (fst ?r1) (CheckRetxTimeout_loop now rto (fst ?r1))"
        by (rule "1.IH" [OF Cons True refl f1])
      have eq: "CheckRetxTimeout_loop now rto s =
          (fst (CheckRetxTimeout_loop now rto (fst ?r1)),
           snd ?r1 @ snd (CheckRetxTimeout_loop now rto (fst ?r1)))"
        using loop_expired [OF Cons True] by (simp add: prod_eq_iff)
      show ?thesis
        by (subst eq) (rule iter [OF "1.prems" Cons f0 t(2) t(3) t(4) f1 ih])
    qed
  qed
qed

lemma full_inv_loop: "full_inv s \<Longrightarrow> full_inv (fst (CheckRetxTimeout_loop now rto s))"
  by (rule loop_rule [where P = "\<lambda>s r. full_inv (fst r)"]) simp_all

lemma loop_scalars:
  assumes "full_inv s"
  shows "m_seq (fst (CheckRetxTimeout_loop now rto s)) = m_seq s
    \<and> m_seqMax (fst (CheckRetxTimeout_loop now rto s)) = m_seqMax s
    \<and> m_retxNum (fst (CheckRetxTimeout_loop now rto s)) = m_retxNum s
    \<and> m_active (fst (CheckRetxTimeout_loop now rto s)) = m_active s"
  by (rule loop_rule [where P = "\<lambda>s r. m_seq (fst r) = m_seq s \<and> m_seqMax (fst r) = m_seqMax s
        \<and> m_retxNum (fst r) = m_retxNum s \<and> m_active (fst r) = m_active s", OF assms])
    (simp_all add: OnTimeout_scalars)

lemma inflight_dom: "ledger_inv s \<Longrightarrow> inflight s k = (k \<in> dom (m_seqRetxCounts s))"
  by (simp add: inflight_def ledger_inv_def)

lemma retx_count_idle: "ledger_inv s \<Longrightarrow> \<not> inflight s k \<Longrightarrow> retx_count s k = 0"
  by (auto simp: inflight_dom retx_count_def split: option.splits)

lemma full_invD:
  assumes "full_inv s"
  shows "consumer_inv s" "ledger_inv s" "containers_wf s" "retx_disjoint s" "pending_inv s"
    "retx_wf (m_retxSeqs s)"
  using assms by (simp_all add: full_inv_def consumer_inv_def containers_wf_def)

subsection \<open>The timeout check, seen from one sequence number\<close>

definition loop_post :: "seqno \<Rightarrow> consumer \<Rightarrow> consumer \<times> effect list \<Rightarrow> bool" where
  "loop_post k s r =
     (sends k (snd r) = 0 \<and> first_delays k (snd r) = 0 \<and> last_delays k (snd r) = 0
      \<and> (inflight (fst r) k \<longrightarrow>
           inflight s k \<and> retx_count (fst r) k = retx_count s k \<and> discards k (snd r) = 0)
      \<and> (\<not> inflight (fst r) k \<longrightarrow>
           (inflight s k \<longrightarrow> discards k (snd r) = 1 \<and> \<not> retx_count s k < m_retxNum s)
           \<and> (\<not> inflight s k \<longrightarrow> discards k (snd r) = 0))
      \<and> (filter is_SentSeq (snd r) = [] \<longrightarrow> m_retxSeqs (fst r) = m_retxSeqs s))"

lemma loop_post_iter:
  assumes f: "full_inv s" and d: "k0 \<in> dom (m_seqRetxCounts s)"
    and ih: "loop_post k (fst (OnTimeout k0 (s\<lparr> m_seqTimeouts := rest \<rparr>))) r"
  shows "loop_post k s (fst r, snd (OnTimeout k0 (s\<lparr> m_seqTimeouts := rest \<rparr>)) @ snd r)"
proof -
  let ?s0 = "s\<lparr> m_seqTimeouts := rest \<rparr>"
  have l0: "ledger_inv s" using f by (rule full_invD)
  have v0: "inflight ?s0 k = inflight s k" "retx_count ?s0 = retx_count s"
    "m_retxNum ?s0 = m_retxNum s" "m_retxSeqs ?s0 = m_retxSeqs s"
    "dom (m_seqRetxCounts ?s0) = dom (m_seqRetxCounts s)"
    by (simp_all add: inflight_def retx_count_def fun_eq_iff)
  have ik0: "inflight s k0" using l0 d by (simp add: inflight_dom)
  have c: "sends k (snd (OnTimeout k0 ?s0)) = 0" "first_delays k (snd (OnTimeout k0 ?s0)) = 0"
    "last_delays k (snd (OnTimeout k0 ?s0)) = 0"
    by (cases "retx_count ?s0 k0 < m_retxNum ?s0";
        simp add: OnTimeout_retry_view OnTimeout_discard_view sends_def first_delays_def
          last_delays_def)+
  show ?thesis
  proof (cases "retx_count s k0 < m_retxNum s")
    case True
    then have t: "retx_count ?s0 k0 < m_retxNum ?s0" by (simp add: v0)
    have "inflight (fst (OnTimeout k0 ?s0)) k = inflight s k"
      "retx_count (fst (OnTimeout k0 ?s0)) k = retx_count s k"
      "discards k (snd (OnTimeout k0 ?s0)) = 0"
      "filter is_SentSeq (snd (OnTimeout k0 ?s0)) \<noteq> []"
      "m_retxNum (fst (OnTimeout k0 ?s0)) = m_retxNum s"
      using t by (simp_all add: OnTimeout_retry_view OnTimeout_scalars inflight_def discards_def v0)
    with ih c show ?thesis by (simp add: loop_post_def)
  next
    case False
    then have t: "\<not> retx_count ?s0 k0 < m_retxNum ?s0" by (simp add: v0)
    have v: "inflight (fst (OnTimeout k0 ?s0)) k = (inflight s k \<and> k \<noteq> k0)"
      "k \<noteq> k0 \<Longrightarrow> retx_count (fst (OnTimeout k0 ?s0)) k = retx_count s k"
      "discards k (snd (OnTimeout k0 ?s0)) = (if k = k0 then 1 else 0)"
      "m_retxSeqs (fst (OnTimeout k0 ?s0)) = m_retxSeqs s"
      "filter is_SentSeq (snd (OnTimeout k0 ?s0)) = []"
      "m_retxNum (fst (OnTimeout k0 ?s0)) = m_retxNum s"
      using t
      by (auto simp: OnTimeout_discard_view OnTimeout_scalars inflight_def discards_def
          seq_keys_ledger_erase v0)
    show ?thesis
    proof (cases "k = k0")
      case True
      with ih c v ik0 False show ?thesis by (simp add: loop_post_def)
    next
      case False
      with ih c v show ?thesis by (simp add: loop_post_def)
    qed
  qed
qed

lemma loop_k:
  assumes "full_inv s"
  shows "loop_post k s (CheckRetxTimeout_loop now rto s)"
proof (rule loop_rule [OF assms])
  fix s assume "full_inv s"
  show "loop_post k s (s, [])" by (simp add: loop_post_def)
next
  fix s e rest r
  assume "full_inv s" "seq e \<in> dom (m_seqRetxCounts s)"
    "loop_post k (fst (OnTimeout (seq e) (s\<lparr> m_seqTimeouts := rest \<rparr>))) r"
  then show "loop_post k s (fst r, snd (OnTimeout (seq e) (s\<lparr> m_seqTimeouts := rest \<rparr>)) @ snd r)"
    by (rule loop_post_iter)
qed

lemma CheckRetxTimeout_k:
  assumes "full_inv s"
  shows "loop_post k s (CheckRetxTimeout now rto s)"
  using loop_k [OF assms, of k now rto]
  by (simp add: loop_post_def CheckRetxTimeout_def Let_def sends_def discards_def first_delays_def
      last_delays_def)

lemma CheckRetxTimeout_scalars:
  assumes "full_inv s"
  shows "m_seq (fst (CheckRetxTimeout now rto s)) = m_seq s"
    "m_seqMax (fst (CheckRetxTimeout now rto s)) = m_seqMax s"
    "m_retxNum (fst (CheckRetxTimeout now rto s)) = m_retxNum s"
    "m_active (fst (CheckRetxTimeout now rto s)) = m_active s"
  using loop_scalars [OF assms, of now rto] by (simp_all add: CheckRetxTimeout_def Let_def)

lemma full_inv_CheckRetxTimeout:
  "full_inv s \<Longrightarrow> full_inv (fst (CheckRetxTimeout now rto s))"
  by (simp add: CheckRetxTimeout_def Let_def full_inv_loop)

fun sent_seq :: "effect \<Rightarrow> seqno list" where
  "sent_seq (Face_onReceiveInterest k) = [k]"
| "sent_seq e = []"

definition sent_seqs :: "effect list \<Rightarrow> seqno list" where
  "sent_seqs effs = concat (map sent_seq effs)"

lemma sent_seqs_append [simp]: "sent_seqs (a @ b) = sent_seqs a @ sent_seqs b"
  by (simp add: sent_seqs_def)

lemma sent_seqs_Nil [simp]: "sent_seqs [] = []"
  by (simp add: sent_seqs_def)

lemma sent_seqs_send: "sent_seqs (snd (SendPacket_send now x s)) = [x]"
  by (simp add: SendPacket_send_effects sent_seqs_def)

subsection \<open>The invariant of the pending retransmissions\<close>

lemma pending_inv_retx_tl:
  "pending_inv s \<Longrightarrow> pending_inv (s\<lparr> m_retxSeqs := tl (m_retxSeqs s) \<rparr>)"
  using set_tl_subset [of "m_retxSeqs s"]
  by (auto simp: pending_inv_def retx_count_def)

lemma pending_inv_seq_upd: "pending_inv (s\<lparr> m_seq := x \<rparr>) = pending_inv s"
  by (simp add: pending_inv_def retx_count_def)

lemma pending_inv_WaitBefore:
  "pending_inv s \<Longrightarrow> k \<notin> set (m_retxSeqs s) \<Longrightarrow>
   pending_inv (fst (WaitBeforeSendOutInterest now k s))"
  by (auto simp: pending_inv_def WaitBefore_view)

lemma retx_count_erase_seq:
  "retx_count (erase_seq k s) k' = (if k' = k then 0 else retx_count s k')"
  by (simp add: retx_count_def erase_seq_def)

lemma pending_inv_erase_seq: "pending_inv s \<Longrightarrow> pending_inv (erase_seq k s)"
proof -
  assume p: "pending_inv s"
  have "set (m_retxSeqs (erase_seq k s)) = set (m_retxSeqs s) - {k}"
    "seq_keys (m_seqFullDelay (erase_seq k s)) = seq_keys (m_seqFullDelay s) - {k}"
    "m_retxNum (erase_seq k s) = m_retxNum s"
    by (simp_all add: erase_seq_def set_set_erase seq_keys_ledger_erase)
  with p show ?thesis
    by (auto simp: pending_inv_def retx_count_erase_seq)
qed

lemma full_inv_OnData: "full_inv s \<Longrightarrow> full_inv (fst (OnData now k h s))"
  by (simp add: full_inv_def OnData_state consumer_inv_erase_seq pending_inv_erase_seq)

lemma full_inv_SendPacket:
  assumes "full_inv s"
  shows "full_inv (fst (SendPacket now s))"
proof -
  have c: "consumer_inv (fst (SendPacket now s))"
    using assms by (simp add: full_inv_def consumer_inv_SendPacket)
  let ?s1 = "s\<lparr> m_retxSeqs := tl (m_retxSeqs s) \<rparr>"
  have p: "pending_inv s" and wf: "retx_wf (m_retxSeqs s)" using assms by (rule full_invD)+
  have p1: "pending_inv ?s1" by (rule pending_inv_retx_tl [OF p])
  have "pending_inv (fst (SendPacket now s))"
  proof (cases "m_active s")
    case False
    with p show ?thesis by (simp add: SendPacket_cases)
  next
    case act: True
    show ?thesis
    proof (cases "m_retxSeqs s \<noteq> [] \<and> hd (m_retxSeqs s) \<noteq> uint32_max")
      case True
      then have "hd (m_retxSeqs s) \<notin> set (m_retxSeqs ?s1)"
        using retx_wf_hd_notin_tl [OF wf] by simp
      then have "pending_inv (fst (WaitBeforeSendOutInterest now (hd (m_retxSeqs s)) ?s1))"
        by (rule pending_inv_WaitBefore [OF p1])
      with act True show ?thesis by (simp add: SendPacket_cases fst_SendPacket_send)
    next
      case False
      then have e: "tl (m_retxSeqs s) = []"
        using retx_wf_hd_max [OF wf] by (cases "m_retxSeqs s = []") auto
      let ?s2 = "?s1\<lparr> m_seq := m_seq s + 1 \<rparr>"
      have p2: "pending_inv ?s2" using p1 by (simp only: pending_inv_seq_upd)
      have "m_seq s \<notin> set (m_retxSeqs ?s2)" using e by simp
      then have "pending_inv (fst (WaitBeforeSendOutInterest now (m_seq s) ?s2))"
        by (rule pending_inv_WaitBefore [OF p2])
      with act False p1 show ?thesis by (auto simp: SendPacket_cases fst_SendPacket_send)
    qed
  qed
  with c show ?thesis by (simp add: full_inv_def)
qed

lemma full_inv_step: "full_inv s \<Longrightarrow> full_inv (fst (step s e))"
  by (cases e) (simp_all add: full_inv_SendPacket full_inv_CheckRetxTimeout full_inv_OnData)

lemma full_inv_run: "full_inv s \<Longrightarrow> full_inv (fst (run s es))"
  by (induction es arbitrary: s) (simp_all add: run_Cons_fst full_inv_step del: run.simps(2))

lemma full_inv_Consumer: "full_inv (Consumer a t)"
  using consumer_inv_Consumer [of a t] by (simp add: full_inv_def pending_inv_def Consumer_def)

subsection \<open>The tick, seen from one sequence number\<close>

lemma inflight_WaitBefore:
  "inflight (fst (WaitBeforeSendOutInterest now x s)) k = (k = x \<or> inflight s k)"
  by (simp add: inflight_def WaitBefore_view)

lemma erase_seq_view:
  "inflight (erase_seq k0 s) k = (inflight s k \<and> k \<noteq> k0)"
  "m_seq (erase_seq k0 s) = m_seq s" "m_retxNum (erase_seq k0 s) = m_retxNum s"
  "m_seqMax (erase_seq k0 s) = m_seqMax s" "m_active (erase_seq k0 s) = m_active s"
  "m_retxSeqs (erase_seq k0 s) = set_erase k0 (m_retxSeqs s)"
  by (auto simp: erase_seq_def inflight_def seq_keys_ledger_erase)

definition minting :: "consumer \<Rightarrow> consumer \<Rightarrow> seqno \<Rightarrow> bool" where
  "minting s s' k = (m_seq s' \<noteq> m_seq s \<and> m_seq s = k)"

definition tick_post :: "seqno \<Rightarrow> consumer \<Rightarrow> consumer \<times> effect list \<Rightarrow> bool" where
  "tick_post k s r =
     (discards k (snd r) = 0 \<and> first_delays k (snd r) = 0 \<and> last_delays k (snd r) = 0
      \<and> filter is_SentSeq (snd r) = []
      \<and> m_retxNum (fst r) = m_retxNum s \<and> m_seqMax (fst r) = m_seqMax s
      \<and> m_active (fst r) = m_active s
      \<and> sends k (snd r) \<le> 1
      \<and> retx_count (fst r) k = retx_count s k + of_nat (sends k (snd r))
      \<and> (inflight (fst r) k \<longleftrightarrow> inflight s k \<or> minting s (fst r) k)
      \<and> (sends k (snd r) = 1 \<longrightarrow> minting s (fst r) k
            \<or> (inflight s k \<and> retx_count s k < m_retxNum s))
      \<and> (minting s (fst r) k \<longrightarrow> sends k (snd r) = 1)
      \<and> (m_seq (fst r) \<noteq> m_seq s \<longrightarrow>
            m_seq (fst r) = m_seq s + 1 \<and> sent_seqs (snd r) = [m_seq s]
            \<and> (m_seqMax s = uint32_max \<or> m_seq s < m_seqMax s))
      \<and> (m_retxSeqs s = [] \<longrightarrow> m_retxSeqs (fst r) = []
            \<and> (m_seq (fst r) = m_seq s \<longrightarrow> snd r = []
                 \<and> (\<not> m_active s \<or> (m_seqMax s \<noteq> uint32_max \<and> m_seqMax s \<le> m_seq s)))))"

lemma SendPacket_k:
  assumes "full_inv s"
  shows "tick_post k s (SendPacket now s)"
proof -
  let ?s1 = "s\<lparr> m_retxSeqs := tl (m_retxSeqs s) \<rparr>"
  let ?s2 = "s\<lparr> m_retxSeqs := tl (m_retxSeqs s), m_seq := m_seq s + 1 \<rparr>"
  have p: "pending_inv s" using assms by (rule full_invD)
  have v1: "inflight ?s1 = inflight s" "retx_count ?s1 = retx_count s"
    "inflight ?s2 = inflight s" "retx_count ?s2 = retx_count s"
    by (simp_all add: inflight_def retx_count_def fun_eq_iff)
  show ?thesis
  proof (cases "m_active s")
    case False
    then show ?thesis by (simp add: SendPacket_cases tick_post_def minting_def)
  next
    case act: True
    show ?thesis
    proof (cases "m_retxSeqs s \<noteq> [] \<and> hd (m_retxSeqs s) \<noteq> uint32_max")
      case True
      then have h: "hd (m_retxSeqs s) \<in> set (m_retxSeqs s)" by simp
      then have i: "inflight s (hd (m_retxSeqs s))"
        and c: "retx_count s (hd (m_retxSeqs s)) < m_retxNum s"
        using p by (auto simp: pending_inv_def inflight_def)
      have r: "SendPacket now s = SendPacket_send now (hd (m_retxSeqs s)) ?s1"
        using act True by (simp add: SendPacket_cases)
      show ?thesis
        unfolding r tick_post_def
        using i c True
        by (auto simp: fst_SendPacket_send WaitBefore_view SendPacket_send_counts
            inflight_WaitBefore v1 minting_def)
    next
      case False
      show ?thesis
      proof (cases "m_seqMax s \<noteq> uint32_max \<and> m_seqMax s \<le> m_seq s")
        case True
        have r: "SendPacket now s = (?s1, [])"
          using act False True by (auto simp: SendPacket_cases)
        show ?thesis
          unfolding r tick_post_def using act True by (simp add: v1 minting_def)
      next
        case nolimit: False
        have r: "SendPacket now s = SendPacket_send now (m_seq s) ?s2"
          using act False nolimit by (auto simp: SendPacket_cases)
        show ?thesis
          unfolding r tick_post_def
          using nolimit
          by (auto simp: fst_SendPacket_send WaitBefore_view SendPacket_send_counts
              inflight_WaitBefore v1 sent_seqs_send not_le minting_def)
      qed
    qed
  qed
qed

subsection \<open>The response handler, seen from one sequence number\<close>

lemma OnData_effects:
  "snd (OnData now k0 h s) =
     (if \<not> m_active s then []
      else [App_OnData k0]
        @ (case ledger_find k0 (m_seqLastDelay s) of None \<Rightarrow> []
           | Some entry \<Rightarrow> [Trace_lastRetransmittedInterestDataDelay k0 (now - time entry) h])
        @ (case ledger_find k0 (m_seqFullDelay s) of None \<Rightarrow> []
           | Some entry \<Rightarrow> [Trace_firstInterestDataDelay k0 (now - time entry) (retx_count s k0) h])
        @ [Rtt_AckSeq k0])"
  by (simp add: OnData_def Let_def subscript_def retx_count_def split: option.splits prod.splits)

definition data_post :: "seqno \<Rightarrow> seqno \<Rightarrow> consumer \<Rightarrow> consumer \<times> effect list \<Rightarrow> bool" where
  "data_post k k0 s r =
     (sends k (snd r) = 0 \<and> discards k (snd r) = 0 \<and> filter is_SentSeq (snd r) = []
      \<and> sent_seqs (snd r) = []
      \<and> m_seq (fst r) = m_seq s \<and> m_retxNum (fst r) = m_retxNum s
      \<and> m_seqMax (fst r) = m_seqMax s \<and> m_active (fst r) = m_active s
      \<and> (m_retxSeqs s = [] \<longrightarrow> m_retxSeqs (fst r) = [])
      \<and> (k0 \<noteq> k \<longrightarrow> first_delays k (snd r) = 0 \<and> last_delays k (snd r) = 0
            \<and> inflight (fst r) k = inflight s k \<and> retx_count (fst r) k = retx_count s k)
      \<and> (k0 = k \<longrightarrow>
            first_delays k (snd r) = (if m_active s \<and> inflight s k then 1 else 0)
            \<and> last_delays k (snd r) = (if m_active s \<and> inflight s k then 1 else 0)
            \<and> inflight (fst r) k = (inflight s k \<and> \<not> m_active s)))"

lemma OnData_k:
  assumes "ledger_inv s"
  shows "data_post k k0 s (OnData now k0 h s)"
proof -
  have l: "seq_keys (m_seqLastDelay s) = seq_keys (m_seqFullDelay s)"
    using assms by (simp add: ledger_inv_def)
  have f: "(ledger_find k0 (m_seqFullDelay s) = None) = (\<not> inflight s k0)"
    "(ledger_find k0 (m_seqLastDelay s) = None) = (\<not> inflight s k0)"
    by (simp_all add: ledger_find_None_iff inflight_def l)
  show ?thesis
  proof (cases "inflight s k0")
    case True
    then obtain e1 e2 where "ledger_find k0 (m_seqFullDelay s) = Some e1"
      "ledger_find k0 (m_seqLastDelay s) = Some e2"
      using f by (cases "ledger_find k0 (m_seqFullDelay s)"; cases "ledger_find k0 (m_seqLastDelay s)") auto
    then show ?thesis
      using True
      by (auto simp: data_post_def OnData_effects OnData_state erase_seq_view retx_count_erase_seq sends_def discards_def
          first_delays_def last_delays_def sent_seqs_def set_erase_def)
  next
    case False
    then have "ledger_find k0 (m_seqFullDelay s) = None" "ledger_find k0 (m_seqLastDelay s) = None"
      using f by simp_all
    then show ?thesis
      using False
      by (auto simp: data_post_def OnData_effects OnData_state erase_seq_view retx_count_erase_seq sends_def discards_def
          first_delays_def last_delays_def sent_seqs_def set_erase_def)
  qed
qed

section \<open>Executions, one sequence number at a time\<close>

text \<open>
  \<open>minted s es\<close>: the sequence numbers that the ticks of the run \<open>es\<close> from \<open>s\<close> take
  from the counter, in order; a step mints exactly when it changes \<open>m_seq\<close>, and the
  number minted is the old value. \<open>data_for k\<close>: the event is the arrival of Data for
  \<open>k\<close>. \<open>budget\<close>: the most sends a sequence number gets, \<open>m_retxNum\<close> or 1 if that
  is 0. \<open>tracked s k n\<close>: \<open>k\<close> is in flight and its counter reads \<open>n\<close>, between 1 and
  the budget.
\<close>

fun minted :: "consumer \<Rightarrow> event list \<Rightarrow> seqno list" where
  "minted s [] = []"
| "minted s (e # es) =
     (if m_seq (fst (step s e)) \<noteq> m_seq s then [m_seq s] else []) @ minted (fst (step s e)) es"

fun data_for :: "seqno \<Rightarrow> event \<Rightarrow> bool" where
  "data_for k (Ev_OnData now k' h) = (k' = k)"
| "data_for k e = False"

definition budget :: "consumer \<Rightarrow> nat" where
  "budget s = max 1 (unat (m_retxNum s))"

definition tracked :: "consumer \<Rightarrow> seqno \<Rightarrow> nat \<Rightarrow> bool" where
  "tracked s k n = (inflight s k \<and> unat (retx_count s k) = n \<and> 1 \<le> n \<and> n \<le> budget s)"

lemma unat_succ_less: "(c :: 32 word) < r \<Longrightarrow> unat (c + 1) = unat c + 1"
proof -
  assume "c < r"
  then have "unat c < unat r" by (simp add: word_less_nat_alt)
  moreover have "unat r < 2 ^ LENGTH(32)" by (rule unsigned_less)
  ultimately have "unat c + unat (1 :: 32 word) < 2 ^ LENGTH(32)" by simp
  then have "unat (c + 1) = unat c + unat (1 :: 32 word)"
    by (simp only: unat_add_lem [THEN iffD1])
  then show ?thesis by simp
qed

subsection \<open>One event\<close>

lemma tick_postD:
  assumes "tick_post k s r"
  shows "discards k (snd r) = 0" "first_delays k (snd r) = 0" "last_delays k (snd r) = 0"
    "m_retxNum (fst r) = m_retxNum s"
    "sends k (snd r) \<le> 1"
    "retx_count (fst r) k = retx_count s k + of_nat (sends k (snd r))"
    "inflight (fst r) k \<longleftrightarrow> inflight s k \<or> minting s (fst r) k"
    "sends k (snd r) = 1 \<Longrightarrow> minting s (fst r) k
            \<or> (inflight s k \<and> retx_count s k < m_retxNum s)"
    "minting s (fst r) k \<Longrightarrow> sends k (snd r) = 1"
  using assms by (simp_all add: tick_post_def)

lemma loop_postD:
  assumes "loop_post k s r"
  shows "sends k (snd r) = 0" "first_delays k (snd r) = 0" "last_delays k (snd r) = 0"
    "inflight (fst r) k \<Longrightarrow>
       inflight s k \<and> retx_count (fst r) k = retx_count s k \<and> discards k (snd r) = 0"
    "\<not> inflight (fst r) k \<Longrightarrow> inflight s k \<Longrightarrow>
       discards k (snd r) = 1 \<and> \<not> retx_count s k < m_retxNum s"
    "\<not> inflight (fst r) k \<Longrightarrow> \<not> inflight s k \<Longrightarrow> discards k (snd r) = 0"
  using assms by (simp_all add: loop_post_def)

lemma data_postD:
  assumes "data_post k k0 s r"
  shows "sends k (snd r) = 0" "discards k (snd r) = 0"
    "m_seq (fst r) = m_seq s" "m_retxNum (fst r) = m_retxNum s"
    "k0 \<noteq> k \<Longrightarrow> first_delays k (snd r) = 0 \<and> last_delays k (snd r) = 0
            \<and> inflight (fst r) k = inflight s k \<and> retx_count (fst r) k = retx_count s k"
    "k0 = k \<Longrightarrow> first_delays k (snd r) = (if m_active s \<and> inflight s k then 1 else 0)
            \<and> last_delays k (snd r) = (if m_active s \<and> inflight s k then 1 else 0)
            \<and> inflight (fst r) k = (inflight s k \<and> \<not> m_active s)"
  using assms by (simp_all add: data_post_def)

definition step_mints :: "consumer \<Rightarrow> event \<Rightarrow> seqno \<Rightarrow> bool" where
  "step_mints s e k = minting s (fst (step s e)) k"

lemma step_retxNum: "full_inv s \<Longrightarrow> m_retxNum (fst (step s e)) = m_retxNum s"
proof (cases e)
  case (Ev_SendPacket now)
  assume f: "full_inv s"
  show ?thesis using tick_postD(4) [OF SendPacket_k [OF f, of 0 now]] Ev_SendPacket by simp
next
  case (Ev_CheckRetxTimeout now rto)
  assume "full_inv s"
  then show ?thesis using Ev_CheckRetxTimeout by (simp add: CheckRetxTimeout_scalars)
next
  case (Ev_OnData now k h)
  then show ?thesis by (simp add: OnData_state erase_seq_view)
qed

lemma step_budget: "full_inv s \<Longrightarrow> budget (fst (step s e)) = budget s"
  using step_retxNum [of s e] by (simp add: budget_def)

lemma step_resolve:
  assumes "full_inv s"
  shows "first_delays k (snd (step s e)) + discards k (snd (step s e))
           + (if inflight (fst (step s e)) k then 1 else 0)
         \<le> (if inflight s k then 1 else 0) + (if step_mints s e k then 1 else (0::nat))"
    and "last_delays k (snd (step s e)) = first_delays k (snd (step s e))"
proof -
  have l: "ledger_inv s" using assms by (rule full_invD)
  show "first_delays k (snd (step s e)) + discards k (snd (step s e))
           + (if inflight (fst (step s e)) k then 1 else 0)
         \<le> (if inflight s k then 1 else 0) + (if step_mints s e k then 1 else (0::nat))"
  proof (cases e)
    case (Ev_SendPacket now)
    note t = tick_postD [OF SendPacket_k [OF assms, of k now]]
    show ?thesis
      using t(1,2,7) Ev_SendPacket by (simp add: step_mints_def)
  next
    case (Ev_CheckRetxTimeout now rto)
    note t = loop_postD [OF CheckRetxTimeout_k [OF assms, of k now rto]]
    show ?thesis
    proof (cases "inflight (fst (CheckRetxTimeout now rto s)) k")
      case True
      with t(2) t(4) Ev_CheckRetxTimeout show ?thesis by simp
    next
      case False
      with t(2) t(5) t(6) Ev_CheckRetxTimeout show ?thesis by (cases "inflight s k") simp_all
    qed
  next
    case (Ev_OnData now k0 h)
    note t = data_postD [OF OnData_k [OF l, of k k0 now h]]
    show ?thesis
      using t(2) t(5) t(6) Ev_OnData by (cases "k0 = k") simp_all
  qed
  show "last_delays k (snd (step s e)) = first_delays k (snd (step s e))"
  proof (cases e)
    case (Ev_SendPacket now)
    note t = tick_postD [OF SendPacket_k [OF assms, of k now]]
    show ?thesis using t(2,3) Ev_SendPacket by simp
  next
    case (Ev_CheckRetxTimeout now rto)
    note t = loop_postD [OF CheckRetxTimeout_k [OF assms, of k now rto]]
    show ?thesis using t(2,3) Ev_CheckRetxTimeout by simp
  next
    case (Ev_OnData now k0 h)
    note t = data_postD [OF OnData_k [OF l, of k k0 now h]]
    show ?thesis using t(5) t(6) Ev_OnData by (cases "k0 = k") simp_all
  qed
qed

lemma step_idle:
  assumes "full_inv s" "\<not> inflight s k" "\<not> step_mints s e k"
  shows "\<not> inflight (fst (step s e)) k \<and> sends k (snd (step s e)) = 0
    \<and> discards k (snd (step s e)) = 0"
proof -
  have l: "ledger_inv s" using assms(1) by (rule full_invD)
  show ?thesis
  proof (cases e)
    case (Ev_SendPacket now)
    note t = tick_postD [OF SendPacket_k [OF assms(1), of k now]]
    have nm: "\<not> minting s (fst (SendPacket now s)) k"
      using assms(3) Ev_SendPacket by (simp add: step_mints_def)
    have "sends k (snd (SendPacket now s)) \<noteq> 1" using t(8) nm assms(2) by blast
    with t(5) have "sends k (snd (SendPacket now s)) = 0" by linarith
    moreover have "\<not> inflight (fst (SendPacket now s)) k" using t(7) nm assms(2) by blast
    ultimately show ?thesis using t(1) Ev_SendPacket by simp
  next
    case (Ev_CheckRetxTimeout now rto)
    note t = loop_postD [OF CheckRetxTimeout_k [OF assms(1), of k now rto]]
    have ni: "\<not> inflight (fst (CheckRetxTimeout now rto s)) k" using t(4) assms(2) by blast
    with t(1) t(6) assms(2) Ev_CheckRetxTimeout show ?thesis by simp
  next
    case (Ev_OnData now k0 h)
    note t = data_postD [OF OnData_k [OF l, of k k0 now h]]
    show ?thesis using t(1,2) t(5) t(6) assms(2) Ev_OnData by (cases "k0 = k") simp_all
  qed
qed

lemma step_mint:
  assumes "full_inv s" "\<not> inflight s k" "step_mints s e k"
  shows "tracked (fst (step s e)) k 1 \<and> sends k (snd (step s e)) = 1
    \<and> discards k (snd (step s e)) = 0"
proof -
  have l: "ledger_inv s" using assms(1) by (rule full_invD)
  have z: "retx_count s k = 0" by (rule retx_count_idle [OF l assms(2)])
  show ?thesis
  proof (cases e)
    case (Ev_SendPacket now)
    note t = tick_postD [OF SendPacket_k [OF assms(1), of k now]]
    have m: "minting s (fst (SendPacket now s)) k"
      using assms(3) Ev_SendPacket by (simp add: step_mints_def)
    have s1: "sends k (snd (SendPacket now s)) = 1" by (rule t(9) [OF m])
    have c: "retx_count (fst (SendPacket now s)) k = 1" using t(6) s1 z by simp
    have i: "inflight (fst (SendPacket now s)) k" using t(7) m by blast
    show ?thesis
      using s1 c i t(1) Ev_SendPacket by (simp add: tracked_def budget_def)
  next
    case (Ev_CheckRetxTimeout now rto)
    then show ?thesis
      using assms(3) CheckRetxTimeout_scalars(1) [OF assms(1), of now rto]
      by (simp add: step_mints_def minting_def)
  next
    case (Ev_OnData now k0 h)
    note t = data_postD [OF OnData_k [OF l, of k k0 now h]]
    have False using assms(3) t(3) Ev_OnData by (simp add: step_mints_def minting_def)
    then show ?thesis by simp
  qed
qed

lemma step_tracked:
  assumes "full_inv s" "tracked s k n" "\<not> data_for k e" "\<not> step_mints s e k"
  shows "(inflight (fst (step s e)) k
           \<and> tracked (fst (step s e)) k (n + sends k (snd (step s e)))
           \<and> discards k (snd (step s e)) = 0)
       \<or> (\<not> inflight (fst (step s e)) k \<and> discards k (snd (step s e)) = 1
           \<and> sends k (snd (step s e)) = 0 \<and> n = budget s)"
proof -
  have l: "ledger_inv s" using assms(1) by (rule full_invD)
  have i: "inflight s k" and c: "unat (retx_count s k) = n" and n1: "1 \<le> n" and nb: "n \<le> budget s"
    using assms(2) by (simp_all add: tracked_def)
  have b: "budget (fst (step s e)) = budget s" by (rule step_budget [OF assms(1)])
  show ?thesis
  proof (cases e)
    case (Ev_SendPacket now)
    note t = tick_postD [OF SendPacket_k [OF assms(1), of k now]]
    have nm: "\<not> minting s (fst (SendPacket now s)) k"
      using assms(4) Ev_SendPacket by (simp add: step_mints_def)
    have fl: "inflight (fst (SendPacket now s)) k" using t(7) i by blast
    note d = t(1)
    show ?thesis
    proof (cases "sends k (snd (SendPacket now s)) = 0")
      case True
      then have "retx_count (fst (SendPacket now s)) k = retx_count s k" using t(6) by simp
      with True fl d c n1 nb b Ev_SendPacket show ?thesis by (simp add: tracked_def)
    next
      case False
      then have s1: "sends k (snd (SendPacket now s)) = 1" using t(5) by linarith
      then have lt: "retx_count s k < m_retxNum s" using t(8) nm by blast
      have "retx_count (fst (SendPacket now s)) k = retx_count s k + 1" using t(6) s1 by simp
      then have u: "unat (retx_count (fst (SendPacket now s)) k) = n + 1"
        using unat_succ_less [OF lt] c by simp
      have "n < unat (m_retxNum s)" using lt c by (simp add: word_less_nat_alt)
      then have "n + 1 \<le> budget s" by (simp add: budget_def)
      with s1 fl d u b Ev_SendPacket show ?thesis by (simp add: tracked_def)
    qed
  next
    case (Ev_CheckRetxTimeout now rto)
    note t = loop_postD [OF CheckRetxTimeout_k [OF assms(1), of k now rto]]
    show ?thesis
    proof (cases "inflight (fst (CheckRetxTimeout now rto s)) k")
      case True
      with t(1) t(4) c n1 nb b Ev_CheckRetxTimeout show ?thesis by (simp add: tracked_def)
    next
      case False
      with t(5) i have d: "discards k (snd (CheckRetxTimeout now rto s)) = 1"
        and ge: "\<not> retx_count s k < m_retxNum s" by simp_all
      from ge c have "unat (m_retxNum s) \<le> n" by (simp add: word_less_nat_alt)
      with n1 nb have "n = budget s" by (simp add: budget_def max_def split: if_splits)
      with False d t(1) Ev_CheckRetxTimeout show ?thesis by simp
    qed
  next
    case (Ev_OnData now k0 h)
    then have ne: "k0 \<noteq> k" using assms(3) by simp
    note t = data_postD [OF OnData_k [OF l, of k k0 now h]]
    from t(1,2) t(5) [OF ne] i c n1 nb b Ev_OnData show ?thesis by (simp add: tracked_def)
  qed
qed

subsection \<open>Runs\<close>

lemma count_minted_Cons:
  "count_list (minted s (e # es)) k =
     (if step_mints s e k then 1 else 0) + count_list (minted (fst (step s e)) es) k"
  by (auto simp: step_mints_def minting_def)

lemma count_minted_zero:
  assumes "count_list (minted s (e # es)) k = 0"
  shows "\<not> step_mints s e k" "count_list (minted (fst (step s e)) es) k = 0"
  using assms by (simp_all add: count_minted_Cons del: minted.simps split: if_splits)

lemma count_minted_le1:
  assumes "count_list (minted s (e # es)) k \<le> 1"
  shows "step_mints s e k \<Longrightarrow> count_list (minted (fst (step s e)) es) k = 0"
    "count_list (minted (fst (step s e)) es) k \<le> 1"
  using assms by (simp_all add: count_minted_Cons del: minted.simps split: if_splits)

lemma run_resolve:
  "full_inv s \<Longrightarrow>
   first_delays k (snd (run s es)) + discards k (snd (run s es))
     + (if inflight (fst (run s es)) k then 1 else 0)
   \<le> (if inflight s k then 1 else 0) + count_list (minted s es) k"
proof (induction es arbitrary: s)
  case Nil
  then show ?case by simp
next
  case (Cons e es)
  let ?s1 = "fst (step s e)"
  have f1: "full_inv ?s1" by (rule full_inv_step [OF Cons.prems])
  note ih = Cons.IH [OF f1]
  note st = step_resolve(1) [OF Cons.prems, of k e]
  show ?case
    using ih st
    by (simp only: run_Cons_fst run_Cons_snd count_minted_Cons first_delays_append
        discards_append; linarith)
qed

lemma run_last_first:
  "full_inv s \<Longrightarrow> last_delays k (snd (run s es)) = first_delays k (snd (run s es))"
proof (induction es arbitrary: s)
  case Nil
  then show ?case by simp
next
  case (Cons e es)
  show ?case
    using Cons.IH [OF full_inv_step [OF Cons.prems]] step_resolve(2) [OF Cons.prems, of k e]
    by (simp only: run_Cons_snd first_delays_append last_delays_append)
qed

lemma run_idle:
  "full_inv s \<Longrightarrow> \<not> inflight s k \<Longrightarrow> count_list (minted s es) k = 0 \<Longrightarrow>
   \<not> inflight (fst (run s es)) k \<and> sends k (snd (run s es)) = 0
   \<and> discards k (snd (run s es)) = 0"
proof (induction es arbitrary: s)
  case Nil
  then show ?case by simp
next
  case (Cons e es)
  let ?s1 = "fst (step s e)"
  note nm = count_minted_zero(1) [OF Cons.prems(3)]
  note r = count_minted_zero(2) [OF Cons.prems(3)]
  note st = step_idle [OF Cons.prems(1,2) nm]
  have ih: "\<not> inflight (fst (run ?s1 es)) k \<and> sends k (snd (run ?s1 es)) = 0
      \<and> discards k (snd (run ?s1 es)) = 0"
    using st r by (intro Cons.IH full_inv_step [OF Cons.prems(1)]) simp_all
  show ?case
    using st ih by (simp only: run_Cons_fst run_Cons_snd sends_append discards_append; simp)
qed

lemma run_budget: "full_inv s \<Longrightarrow> budget (fst (run s es)) = budget s"
  by (induction es arbitrary: s)
    (simp_all add: run_Cons_fst step_budget full_inv_step del: run.simps(2))

lemma run_tracked:
  "full_inv s \<Longrightarrow> tracked s k n \<Longrightarrow> \<forall>e \<in> set es. \<not> data_for k e \<Longrightarrow>
   count_list (minted s es) k = 0 \<Longrightarrow>
   sends k (snd (run s es)) + n \<le> budget s \<and> discards k (snd (run s es)) \<le> 1
   \<and> (inflight (fst (run s es)) k \<longrightarrow>
        tracked (fst (run s es)) k (n + sends k (snd (run s es)))
        \<and> discards k (snd (run s es)) = 0)
   \<and> (\<not> inflight (fst (run s es)) k \<longrightarrow>
        discards k (snd (run s es)) = 1 \<and> n + sends k (snd (run s es)) = budget s)"
proof (induction es arbitrary: s n)
  case Nil
  then show ?case by (simp add: tracked_def)
next
  case (Cons e es)
  let ?s1 = "fst (step s e)"
  have f1: "full_inv ?s1" by (rule full_inv_step [OF Cons.prems(1)])
  have b1: "budget ?s1 = budget s" by (rule step_budget [OF Cons.prems(1)])
  have nd: "\<not> data_for k e" and nd': "\<forall>e \<in> set es. \<not> data_for k e"
    using Cons.prems(3) by simp_all
  note nm = count_minted_zero(1) [OF Cons.prems(4)]
  note r = count_minted_zero(2) [OF Cons.prems(4)]
  from step_tracked [OF Cons.prems(1,2) nd nm]
  show ?case
  proof
    assume a: "inflight ?s1 k \<and> tracked ?s1 k (n + sends k (snd (step s e)))
        \<and> discards k (snd (step s e)) = 0"
    then have t1: "tracked ?s1 k (n + sends k (snd (step s e)))" by simp
    note ih = Cons.IH [OF f1 t1 nd' r]
    show ?thesis
      using a ih b1
      by (simp only: run_Cons_fst run_Cons_snd sends_append discards_append; simp add: add_ac)
  next
    assume a: "\<not> inflight ?s1 k \<and> discards k (snd (step s e)) = 1
        \<and> sends k (snd (step s e)) = 0 \<and> n = budget s"
    then have i1: "\<not> inflight ?s1 k" by simp
    note id = run_idle [OF f1 i1 r]
    show ?thesis
      using a id
      by (simp only: run_Cons_fst run_Cons_snd sends_append discards_append; simp)
  qed
qed

lemma run_lifetime:
  "full_inv s \<Longrightarrow> \<not> inflight s k \<Longrightarrow> \<forall>e \<in> set es. \<not> data_for k e \<Longrightarrow>
   count_list (minted s es) k \<le> 1 \<Longrightarrow>
   sends k (snd (run s es)) \<le> budget s \<and> discards k (snd (run s es)) \<le> 1
   \<and> (inflight (fst (run s es)) k \<longrightarrow>
        unat (retx_count (fst (run s es)) k) = sends k (snd (run s es))
        \<and> 1 \<le> sends k (snd (run s es)) \<and> discards k (snd (run s es)) = 0)
   \<and> (discards k (snd (run s es)) = 1 \<longrightarrow> sends k (snd (run s es)) = budget s)"
proof (induction es arbitrary: s)
  case Nil
  then show ?case by simp
next
  case (Cons e es)
  let ?s1 = "fst (step s e)"
  have f1: "full_inv ?s1" by (rule full_inv_step [OF Cons.prems(1)])
  have b1: "budget ?s1 = budget s" by (rule step_budget [OF Cons.prems(1)])
  have nd': "\<forall>e \<in> set es. \<not> data_for k e" using Cons.prems(3) by simp
  show ?case
  proof (cases "step_mints s e k")
    case True
    note r = count_minted_le1(1) [OF Cons.prems(4) True]
    note m = step_mint [OF Cons.prems(1,2) True]
    then have t1: "tracked ?s1 k 1" by simp
    note tr = run_tracked [OF f1 t1 nd' r]
    show ?thesis
      using m tr b1
      by (simp only: run_Cons_fst run_Cons_snd sends_append discards_append;
          auto simp: tracked_def)
  next
    case False
    note r = count_minted_le1(2) [OF Cons.prems(4)]
    note st = step_idle [OF Cons.prems(1,2) False]
    then have i1: "\<not> inflight ?s1 k" by simp
    note ih = Cons.IH [OF f1 i1 nd' r]
    show ?thesis
      using st ih b1
      by (simp only: run_Cons_fst run_Cons_snd sends_append discards_append; simp)
  qed
qed

section \<open>The life of one sequence number\<close>

text \<open>A sequence number that is not in flight is in no ledger, counter or set.\<close>

lemma idle_absent:
  assumes "full_inv s" "\<not> inflight s k"
  shows "absent k s"
proof -
  have l: "ledger_inv s" and p: "pending_inv s" using assms(1) by (rule full_invD)+
  show ?thesis
    using l p assms(2)
    by (auto simp: absent_def ledger_inv_def pending_inv_def inflight_def)
qed

lemma ledger_find_erase_other:
  "k \<noteq> k0 \<Longrightarrow> ledger_find k (ledger_erase k0 l) = ledger_find k l"
  by (induction l) (auto simp: ledger_find_Nil ledger_erase_Nil ledger_find_Cons ledger_erase_Cons)

lemma ledger_find_SomeD: "ledger_find k l = Some e \<Longrightarrow> e \<in> set l \<and> seq e = k"
  by (induction l) (auto simp: ledger_find_Nil ledger_find_Cons split: if_splits)

text \<open>
  \<open>scheduled s k\<close>: \<open>k\<close> has a timeout entry or waits in the retransmission set, so that
  a timeout check or a tick will come to it.
\<close>

definition scheduled :: "consumer \<Rightarrow> seqno \<Rightarrow> bool" where
  "scheduled s k = (k \<in> seq_keys (m_seqTimeouts s) \<or> k \<in> set (m_retxSeqs s))"

text \<open>\<open>OnTimeout\<close> for one sequence number leaves every other one as it was.\<close>

lemma OnTimeout_other:
  assumes "k \<noteq> k0"
  shows "discards k (snd (OnTimeout k0 s)) = 0"
    "inflight (fst (OnTimeout k0 s)) k = inflight s k"
    "(k \<in> set (m_retxSeqs (fst (OnTimeout k0 s)))) = (k \<in> set (m_retxSeqs s))"
    "retx_count (fst (OnTimeout k0 s)) k = retx_count s k"
    "(k \<in> seq_keys (m_seqTimeouts (fst (OnTimeout k0 s)))) = (k \<in> seq_keys (m_seqTimeouts s))"
    "ledger_find k (m_seqTimeouts (fst (OnTimeout k0 s))) = ledger_find k (m_seqTimeouts s)"
  using assms
  by (cases "retx_count s k0 < m_retxNum s";
      simp add: OnTimeout_retry_view OnTimeout_discard_view discards_def inflight_def
        set_set_insert seq_keys_ledger_erase ledger_find_erase_other)+

lemma timeouts_tl_view:
  "inflight (s\<lparr> m_seqTimeouts := rest \<rparr>) k = inflight s k"
  "retx_count (s\<lparr> m_seqTimeouts := rest \<rparr>) = retx_count s"
  "m_retxNum (s\<lparr> m_seqTimeouts := rest \<rparr>) = m_retxNum s"
  "m_retxSeqs (s\<lparr> m_seqTimeouts := rest \<rparr>) = m_retxSeqs s"
  "m_seqTimeouts (s\<lparr> m_seqTimeouts := rest \<rparr>) = rest"
  by (simp_all add: inflight_def retx_count_def fun_eq_iff)

text \<open>The timeout check does not touch a sequence number that has no timeout entry.\<close>

definition frame_post :: "seqno \<Rightarrow> consumer \<Rightarrow> consumer \<times> effect list \<Rightarrow> bool" where
  "frame_post k s r =
     (k \<notin> seq_keys (m_seqTimeouts s) \<longrightarrow>
        discards k (snd r) = 0 \<and> inflight (fst r) k = inflight s k
        \<and> (k \<in> set (m_retxSeqs (fst r))) = (k \<in> set (m_retxSeqs s))
        \<and> retx_count (fst r) k = retx_count s k
        \<and> k \<notin> seq_keys (m_seqTimeouts (fst r)))"

lemma loop_frame:
  assumes "full_inv s"
  shows "frame_post k s (CheckRetxTimeout_loop now rto s)"
proof (rule loop_rule [OF assms])
  fix s assume "full_inv s"
  show "frame_post k s (s, [])" by (simp add: frame_post_def)
next
  fix s e rest r
  assume ts: "m_seqTimeouts s = e # rest"
    and ih: "frame_post k (fst (OnTimeout (seq e) (s\<lparr> m_seqTimeouts := rest \<rparr>))) r"
  let ?s0 = "s\<lparr> m_seqTimeouts := rest \<rparr>"
  show "frame_post k s (fst r, snd (OnTimeout (seq e) ?s0) @ snd r)"
    unfolding frame_post_def
  proof
    assume n: "k \<notin> seq_keys (m_seqTimeouts s)"
    then have ne: "k \<noteq> seq e" and nr: "k \<notin> seq_keys rest"
      using ts by (simp_all add: seq_keys_Cons)
    note o = OnTimeout_other [OF ne, of ?s0]
    have "k \<notin> seq_keys (m_seqTimeouts (fst (OnTimeout (seq e) ?s0)))"
      using o(5) nr by (simp add: timeouts_tl_view)
    with ih have "discards k (snd r) = 0
        \<and> inflight (fst r) k = inflight (fst (OnTimeout (seq e) ?s0)) k
        \<and> (k \<in> set (m_retxSeqs (fst r))) = (k \<in> set (m_retxSeqs (fst (OnTimeout (seq e) ?s0))))
        \<and> retx_count (fst r) k = retx_count (fst (OnTimeout (seq e) ?s0)) k
        \<and> k \<notin> seq_keys (m_seqTimeouts (fst r))"
      by (simp add: frame_post_def)
    then show "discards k (snd (fst r, snd (OnTimeout (seq e) ?s0) @ snd r)) = 0
        \<and> inflight (fst (fst r, snd (OnTimeout (seq e) ?s0) @ snd r)) k = inflight s k
        \<and> (k \<in> set (m_retxSeqs (fst (fst r, snd (OnTimeout (seq e) ?s0) @ snd r))))
            = (k \<in> set (m_retxSeqs s))
        \<and> retx_count (fst (fst r, snd (OnTimeout (seq e) ?s0) @ snd r)) k = retx_count s k
        \<and> k \<notin> seq_keys (m_seqTimeouts (fst (fst r, snd (OnTimeout (seq e) ?s0) @ snd r)))"
      using o(1-4) by (simp add: timeouts_tl_view)
  qed
qed

text \<open>
  The timeout check reaches every entry that has expired: the ledger is ordered by
  time, so the entries before an expired one have expired too. The handler then queues
  the retransmission or discards, by the counter.
\<close>

lemma loop_expired_k:
  assumes "full_inv s" "ledger_find k (m_seqTimeouts s) = Some e" "time e + rto \<le> now"
  shows "(retx_count s k < m_retxNum s \<longrightarrow>
            discards k (snd (CheckRetxTimeout_loop now rto s)) = 0
            \<and> k \<in> set (m_retxSeqs (fst (CheckRetxTimeout_loop now rto s)))
            \<and> inflight (fst (CheckRetxTimeout_loop now rto s)) k
            \<and> retx_count (fst (CheckRetxTimeout_loop now rto s)) k = retx_count s k
            \<and> k \<notin> seq_keys (m_seqTimeouts (fst (CheckRetxTimeout_loop now rto s))))
       \<and> (\<not> retx_count s k < m_retxNum s \<longrightarrow>
            discards k (snd (CheckRetxTimeout_loop now rto s)) = 1
            \<and> \<not> inflight (fst (CheckRetxTimeout_loop now rto s)) k)"
  using assms
proof (induction now rto s rule: CheckRetxTimeout_loop.induct)
  case (1 now rto s)
  note f = "1.prems"(1) and fk = "1.prems"(2) and ex = "1.prems"(3)
  show ?case
  proof (cases "m_seqTimeouts s")
    case Nil
    with fk show ?thesis by (simp add: ledger_find_Nil)
  next
    case (Cons e0 rest)
    have wf: "ledger_wf (e0 # rest)"
      using full_invD(3) [OF f] Cons by (simp add: containers_wf_def)
    have mem: "e \<in> set (e0 # rest)" using ledger_find_SomeD [OF fk] Cons by simp
    have "time e0 \<le> time e" using wf mem by (auto simp: ledger_wf_def)
    then have ex0: "time e0 + rto \<le> now" using ex by simp
    let ?s0 = "s\<lparr> m_seqTimeouts := rest \<rparr>"
    let ?r1 = "OnTimeout (seq e0) ?s0"
    have ci: "consumer_inv s" using f by (simp add: full_inv_def)
    note t = consumer_inv_timeouts_tl [OF ci Cons]
    have f0: "full_inv ?s0" by (rule full_inv_timeouts_tl [OF f Cons])
    have f1: "full_inv (fst ?r1)"
      using t by (intro full_inv_OnTimeout [OF f0]) simp_all
    note le = loop_expired [OF Cons ex0]
    have n1: "m_retxNum (fst ?r1) = m_retxNum s" by (simp add: OnTimeout_scalars)
    show ?thesis
    proof (cases "seq e0 = k")
      case False
      then have ne: "k \<noteq> seq e0" by blast
      note o = OnTimeout_other [OF ne, of ?s0]
      have fk1: "ledger_find k (m_seqTimeouts (fst ?r1)) = Some e"
        using o(6) fk Cons False by (simp add: ledger_find_Cons)
      note ih = "1.IH" [OF Cons ex0 refl f1 fk1 ex]
      have c1: "retx_count (fst ?r1) k = retx_count s k"
        using o(4) by (simp add: timeouts_tl_view)
      show ?thesis using ih c1 n1 o(1) by (simp add: le)
    next
      case hd: True
      have nr: "k \<notin> seq_keys rest" and nx: "k \<notin> set (m_retxSeqs s)"
        and dm: "k \<in> dom (m_seqRetxCounts s)"
        using t(2,3,4) hd by simp_all
      have ik: "inflight s k" using dm full_invD(2) [OF f] by (simp add: inflight_dom)
      note fr = loop_frame [OF f1, of k now rto]
      show ?thesis
      proof (cases "retx_count s k < m_retxNum s")
        case True
        then have c: "retx_count ?s0 k < m_retxNum ?s0" by (simp add: timeouts_tl_view)
        note v = OnTimeout_retry_view [OF c]
        have a: "k \<notin> seq_keys (m_seqTimeouts (fst (OnTimeout k ?s0)))"
          "inflight (fst (OnTimeout k ?s0)) k"
          "k \<in> set (m_retxSeqs (fst (OnTimeout k ?s0)))"
          "retx_count (fst (OnTimeout k ?s0)) k = retx_count s k"
          "discards k (snd (OnTimeout k ?s0)) = 0"
          using nr ik
          by (simp_all add: v timeouts_tl_view inflight_def set_set_insert discards_def)
        show ?thesis
          using fr a True by (simp add: le hd frame_post_def)
      next
        case False
        then have c: "\<not> retx_count ?s0 k < m_retxNum ?s0" by (simp add: timeouts_tl_view)
        note v = OnTimeout_discard_view [OF c]
        have a: "k \<notin> seq_keys (m_seqTimeouts (fst (OnTimeout k ?s0)))"
          "\<not> inflight (fst (OnTimeout k ?s0)) k"
          "discards k (snd (OnTimeout k ?s0)) = 1"
          by (simp_all add: v timeouts_tl_view inflight_def seq_keys_ledger_erase discards_def)
        show ?thesis
          using fr a False by (simp add: le hd frame_post_def)
      qed
    qed
  qed
qed

lemma CheckRetxTimeout_fst:
  "fst (CheckRetxTimeout now rto s) = fst (CheckRetxTimeout_loop now rto s)"
  by (simp add: CheckRetxTimeout_def Let_def)

lemma CheckRetxTimeout_counts:
  "discards k (snd (CheckRetxTimeout now rto s)) = discards k (snd (CheckRetxTimeout_loop now rto s))"
  "sends k (snd (CheckRetxTimeout now rto s)) = sends k (snd (CheckRetxTimeout_loop now rto s))"
  by (simp_all add: CheckRetxTimeout_def Let_def discards_def sends_def)

text \<open>
  Every event keeps a sequence number other than \<open>0xFFFFFFFF\<close> that is in flight
  scheduled.
\<close>

definition sched_post :: "seqno \<Rightarrow> consumer \<Rightarrow> consumer \<times> effect list \<Rightarrow> bool" where
  "sched_post k s r =
     ((inflight s k \<longrightarrow> scheduled s k) \<longrightarrow> (inflight (fst r) k \<longrightarrow> scheduled (fst r) k))"

lemma OnTimeout_sched:
  assumes "inflight s k \<longrightarrow> scheduled s k" "m_seqTimeouts s = e # rest"
  shows "inflight (fst (OnTimeout (seq e) (s\<lparr> m_seqTimeouts := rest \<rparr>))) k \<longrightarrow>
         scheduled (fst (OnTimeout (seq e) (s\<lparr> m_seqTimeouts := rest \<rparr>))) k"
proof (cases "k = seq e")
  case False
  note o = OnTimeout_other [OF False, of "s\<lparr> m_seqTimeouts := rest \<rparr>"]
  show ?thesis
    using assms False o(2,3,5)
    by (simp add: scheduled_def timeouts_tl_view seq_keys_Cons)
next
  case True
  let ?s0 = "s\<lparr> m_seqTimeouts := rest \<rparr>"
  show ?thesis
  proof (cases "retx_count ?s0 k < m_retxNum ?s0")
    case r: True
    show ?thesis
      using OnTimeout_retry_view(4) [OF r] True by (simp add: scheduled_def set_set_insert)
  next
    case d: False
    show ?thesis
      using OnTimeout_discard_view(2) [OF d] True by (simp add: inflight_def seq_keys_ledger_erase)
  qed
qed

lemma loop_sched:
  assumes "full_inv s"
  shows "sched_post k s (CheckRetxTimeout_loop now rto s)"
proof (rule loop_rule [OF assms])
  fix s assume "full_inv s"
  show "sched_post k s (s, [])" by (simp add: sched_post_def)
next
  fix s e rest r
  assume ts: "m_seqTimeouts s = e # rest"
    and ih: "sched_post k (fst (OnTimeout (seq e) (s\<lparr> m_seqTimeouts := rest \<rparr>))) r"
  show "sched_post k s (fst r, snd (OnTimeout (seq e) (s\<lparr> m_seqTimeouts := rest \<rparr>)) @ snd r)"
    using ih OnTimeout_sched [OF _ ts, of k] by (simp add: sched_post_def)
qed

lemma SendPacket_sched:
  assumes f: "full_inv s" and k: "k \<noteq> uint32_max" and a: "inflight s k \<longrightarrow> scheduled s k"
  shows "inflight (fst (SendPacket now s)) k \<longrightarrow> scheduled (fst (SendPacket now s)) k"
proof -
  let ?s1 = "s\<lparr> m_retxSeqs := tl (m_retxSeqs s) \<rparr>"
  let ?s2 = "s\<lparr> m_retxSeqs := tl (m_retxSeqs s), m_seq := m_seq s + 1 \<rparr>"
  have wf: "retx_wf (m_retxSeqs s)" using f by (rule full_invD)
  have v1: "inflight ?s1 = inflight s" "inflight ?s2 = inflight s"
    "m_seqTimeouts ?s1 = m_seqTimeouts s" "m_seqTimeouts ?s2 = m_seqTimeouts s"
    "m_retxSeqs ?s1 = tl (m_retxSeqs s)" "m_retxSeqs ?s2 = tl (m_retxSeqs s)"
    by (simp_all add: inflight_def fun_eq_iff)
  show ?thesis
  proof (cases "m_active s")
    case False
    with a show ?thesis by (simp add: SendPacket_cases)
  next
    case act: True
    show ?thesis
    proof (cases "m_retxSeqs s \<noteq> [] \<and> hd (m_retxSeqs s) \<noteq> uint32_max")
      case True
      have r: "SendPacket now s = SendPacket_send now (hd (m_retxSeqs s)) ?s1"
        using act True by (simp add: SendPacket_cases)
      have t: "k \<in> set (m_retxSeqs s) \<Longrightarrow> k \<noteq> hd (m_retxSeqs s) \<Longrightarrow> k \<in> set (tl (m_retxSeqs s))"
        by (cases "m_retxSeqs s") auto
      show ?thesis
        unfolding r
        using a t
        by (auto simp: fst_SendPacket_send inflight_WaitBefore WaitBefore_view scheduled_def v1)
    next
      case False
      then have e: "tl (m_retxSeqs s) = []"
        using retx_wf_hd_max [OF wf] by (cases "m_retxSeqs s = []") auto
      have nk: "k \<in> set (m_retxSeqs s) \<Longrightarrow> False"
      proof -
        assume m: "k \<in> set (m_retxSeqs s)"
        then have "m_retxSeqs s \<noteq> []" by auto
        with False have h: "hd (m_retxSeqs s) = uint32_max" by simp
        from m e have "k = hd (m_retxSeqs s)" by (cases "m_retxSeqs s") auto
        with h k show False by simp
      qed
      have b: "inflight s k \<longrightarrow> k \<in> seq_keys (m_seqTimeouts s)"
        using a nk by (auto simp: scheduled_def)
      show ?thesis
      proof (cases "m_seqMax s \<noteq> uint32_max \<and> m_seqMax s \<le> m_seq s")
        case True
        have r: "SendPacket now s = (?s1, [])"
          using act False True by (auto simp: SendPacket_cases)
        show ?thesis unfolding r using b by (simp add: scheduled_def v1)
      next
        case nolimit: False
        have r: "SendPacket now s = SendPacket_send now (m_seq s) ?s2"
          using act False nolimit by (auto simp: SendPacket_cases)
        show ?thesis
          unfolding r using b
          by (auto simp: fst_SendPacket_send inflight_WaitBefore WaitBefore_view scheduled_def v1)
      qed
    qed
  qed
qed

lemma OnData_sched:
  assumes "inflight s k \<longrightarrow> scheduled s k"
  shows "inflight (fst (OnData now k0 h s)) k \<longrightarrow> scheduled (fst (OnData now k0 h s)) k"
proof -
  have t: "m_seqTimeouts (erase_seq k0 s) = ledger_erase k0 (m_seqTimeouts s)"
    by (simp add: erase_seq_def)
  show ?thesis
    using assms
    by (auto simp: OnData_state erase_seq_view t scheduled_def seq_keys_ledger_erase set_set_erase)
qed

lemma step_sched:
  assumes "full_inv s" "k \<noteq> uint32_max" "inflight s k \<longrightarrow> scheduled s k"
  shows "inflight (fst (step s e)) k \<longrightarrow> scheduled (fst (step s e)) k"
proof (cases e)
  case (Ev_SendPacket now)
  then show ?thesis using SendPacket_sched [OF assms] by simp
next
  case (Ev_CheckRetxTimeout now rto)
  then show ?thesis
    using loop_sched [OF assms(1), of k now rto] assms(3)
    by (simp add: sched_post_def CheckRetxTimeout_fst)
next
  case (Ev_OnData now k0 h)
  then show ?thesis using OnData_sched [OF assms(3)] by simp
qed

lemma run_sched:
  "full_inv s \<Longrightarrow> k \<noteq> uint32_max \<Longrightarrow> inflight s k \<longrightarrow> scheduled s k \<Longrightarrow>
   inflight (fst (run s es)) k \<longrightarrow> scheduled (fst (run s es)) k"
proof (induction es arbitrary: s)
  case Nil
  then show ?case by simp
next
  case (Cons e es)
  show ?case
    unfolding run_Cons_fst
    by (rule Cons.IH [OF full_inv_step [OF Cons.prems(1)] Cons.prems(2)
          step_sched [OF Cons.prems]])
qed

text \<open>The tick that finds \<open>k\<close> first in the retransmission set sends it.\<close>

lemma SendPacket_head:
  assumes "m_active s" "m_retxSeqs s \<noteq> []" "hd (m_retxSeqs s) = k" "k \<noteq> uint32_max"
  shows "sends k (snd (SendPacket now s)) = 1"
    "k \<in> seq_keys (m_seqTimeouts (fst (SendPacket now s)))"
    "retx_count (fst (SendPacket now s)) k = retx_count s k + 1"
proof -
  let ?s1 = "s\<lparr> m_retxSeqs := tl (m_retxSeqs s) \<rparr>"
  have r: "SendPacket now s = SendPacket_send now k ?s1"
    using assms by (simp add: SendPacket_cases)
  have v: "retx_count ?s1 = retx_count s" by (simp add: retx_count_def fun_eq_iff)
  show "sends k (snd (SendPacket now s)) = 1" unfolding r by (simp add: SendPacket_send_counts)
  show "k \<in> seq_keys (m_seqTimeouts (fst (SendPacket now s)))"
    unfolding r by (simp add: fst_SendPacket_send WaitBefore_view)
  show "retx_count (fst (SendPacket now s)) k = retx_count s k + 1"
    unfolding r by (simp add: fst_SendPacket_send WaitBefore_view v)
qed

text \<open>The phases of a sequence number that is minted once and never answered.\<close>

lemma run_tracked_phases:
  assumes "full_inv s" "tracked s k n" "\<forall>e \<in> set es. \<not> data_for k e"
    "count_list (minted s es) k = 0"
  shows "(inflight (fst (run s es)) k \<longrightarrow>
            unat (retx_count (fst (run s es)) k) = n + sends k (snd (run s es))
            \<and> n + sends k (snd (run s es)) \<le> budget s \<and> discards k (snd (run s es)) = 0)
       \<and> (\<not> inflight (fst (run s es)) k \<longrightarrow>
            discards k (snd (run s es)) = 1 \<and> n + sends k (snd (run s es)) = budget s)"
  using run_tracked [OF assms] run_budget [OF assms(1), of es] by (auto simp: tracked_def)

lemma run_phases:
  "full_inv s \<Longrightarrow> \<not> inflight s k \<Longrightarrow> \<forall>e \<in> set es. \<not> data_for k e \<Longrightarrow>
   count_list (minted s es) k \<le> 1 \<Longrightarrow>
   (inflight (fst (run s es)) k \<longrightarrow>
      unat (retx_count (fst (run s es)) k) = sends k (snd (run s es))
      \<and> 1 \<le> sends k (snd (run s es)) \<and> sends k (snd (run s es)) \<le> budget s
      \<and> discards k (snd (run s es)) = 0)
   \<and> (\<not> inflight (fst (run s es)) k \<longrightarrow>
      (sends k (snd (run s es)) = 0 \<and> discards k (snd (run s es)) = 0)
      \<or> (sends k (snd (run s es)) = budget s \<and> discards k (snd (run s es)) = 1))"
proof (induction es arbitrary: s)
  case Nil
  then show ?case by simp
next
  case (Cons e es)
  let ?s1 = "fst (step s e)"
  have f1: "full_inv ?s1" by (rule full_inv_step [OF Cons.prems(1)])
  have b1: "budget ?s1 = budget s" by (rule step_budget [OF Cons.prems(1)])
  have nd': "\<forall>e \<in> set es. \<not> data_for k e" using Cons.prems(3) by simp
  show ?case
  proof (cases "step_mints s e k")
    case True
    note r = count_minted_le1(1) [OF Cons.prems(4) True]
    note m = step_mint [OF Cons.prems(1,2) True]
    then have t1: "tracked ?s1 k 1" by simp
    note tr = run_tracked_phases [OF f1 t1 nd' r]
    show ?thesis
      using m tr b1
      by (simp only: run_Cons_fst run_Cons_snd sends_append discards_append; simp)
  next
    case False
    note r = count_minted_le1(2) [OF Cons.prems(4)]
    note st = step_idle [OF Cons.prems(1,2) False]
    then have i1: "\<not> inflight ?s1 k" by simp
    note ih = Cons.IH [OF f1 i1 nd' r]
    show ?thesis
      using st ih b1
      by (simp only: run_Cons_fst run_Cons_snd sends_append discards_append; simp)
  qed
qed

lemma run_retxNum: "full_inv s \<Longrightarrow> m_retxNum (fst (run s es)) = m_retxNum s"
  by (induction es arbitrary: s)
    (simp_all add: run_Cons_fst step_retxNum full_inv_step del: run.simps(2))

subsection \<open>A sequence number alone\<close>

lemma run_append:
  "fst (run s (a @ b)) = fst (run (fst (run s a)) b)"
  "snd (run s (a @ b)) = snd (run s a) @ snd (run (fst (run s a)) b)"
  by (induction a arbitrary: s) (simp_all add: run_Cons_fst run_Cons_snd del: run.simps(2))

lemma minted_append: "minted s (a @ b) = minted s a @ minted (fst (run s a)) b"
  by (induction a arbitrary: s) (simp_all add: run_Cons_fst del: run.simps(2))

text \<open>
  A consumer on which \<open>k\<close> is the only sequence number with a timeout entry or a pending
  retransmission: \<open>waiting\<close> for its Data since \<open>t\<close>, or \<open>pending\<close> retransmission; \<open>n\<close> is
  what its counter reads.
\<close>

definition waiting :: "seqno \<Rightarrow> simtime \<Rightarrow> 32 word \<Rightarrow> consumer \<Rightarrow> bool" where
  "waiting k t n s = (m_active s \<and> m_seqTimeouts s = [SeqTimeout k t] \<and> m_retxSeqs s = []
     \<and> retx_count s k = n)"

definition pending :: "seqno \<Rightarrow> 32 word \<Rightarrow> consumer \<Rightarrow> bool" where
  "pending k n s = (m_active s \<and> m_seqTimeouts s = [] \<and> m_retxSeqs s = [k]
     \<and> retx_count s k = n)"

lemma WaitBefore_timeouts:
  "m_seqTimeouts (fst (WaitBeforeSendOutInterest now k s)) =
     ledger_insert (SeqTimeout k now) (m_seqTimeouts s)"
  by (simp add: WaitBeforeSendOutInterest_def)

lemma ledger_insert_Nil: "ledger_insert e [] = [e]"
  by (simp add: ledger_insert_def seq_keys_Nil)

lemma SendPacket_mint:
  assumes "m_active s" "m_seqTimeouts s = []" "m_retxSeqs s = []" "m_seq s = k"
    "m_seqMax s = uint32_max \<or> k < m_seqMax s"
  shows "waiting k t (retx_count s k + 1) (fst (SendPacket t s))"
    "sends k (snd (SendPacket t s)) = 1" "discards k (snd (SendPacket t s)) = 0"
    "m_retxNum (fst (SendPacket t s)) = m_retxNum s" "m_seq (fst (SendPacket t s)) = k + 1"
proof -
  let ?s2 = "s\<lparr> m_retxSeqs := tl (m_retxSeqs s), m_seq := m_seq s + 1 \<rparr>"
  have nl: "\<not> (m_seqMax s \<noteq> uint32_max \<and> m_seqMax s \<le> m_seq s)"
    using assms(4,5) by (auto simp: not_le)
  have r0: "SendPacket t s = SendPacket_send t (m_seq s) ?s2"
    using assms(1,3) nl by (auto simp: SendPacket_cases)
  have r: "SendPacket t s = SendPacket_send t k ?s2"
    using r0 assms(4) by simp
  have v: "retx_count ?s2 = retx_count s" "m_seqTimeouts ?s2 = []" "m_retxSeqs ?s2 = []"
    "m_active ?s2" "m_retxNum ?s2 = m_retxNum s" "m_seq ?s2 = k + 1"
    using assms by (simp_all add: retx_count_def fun_eq_iff)
  show "waiting k t (retx_count s k + 1) (fst (SendPacket t s))"
    unfolding r
    by (simp add: waiting_def fst_SendPacket_send WaitBefore_view WaitBefore_timeouts v
        ledger_insert_Nil)
  show "sends k (snd (SendPacket t s)) = 1" "discards k (snd (SendPacket t s)) = 0"
    unfolding r by (simp_all add: SendPacket_send_counts)
  show "m_retxNum (fst (SendPacket t s)) = m_retxNum s" "m_seq (fst (SendPacket t s)) = k + 1"
    unfolding r by (simp_all add: fst_SendPacket_send WaitBefore_view v)
qed

lemma SendPacket_resend:
  assumes "pending k n s" "k \<noteq> uint32_max"
  shows "waiting k t (n + 1) (fst (SendPacket t s))"
    "sends k (snd (SendPacket t s)) = 1" "discards k (snd (SendPacket t s)) = 0"
    "m_retxNum (fst (SendPacket t s)) = m_retxNum s" "m_seq (fst (SendPacket t s)) = m_seq s"
proof -
  have a: "m_active s" "m_seqTimeouts s = []" "m_retxSeqs s = [k]" "retx_count s k = n"
    using assms(1) by (simp_all add: pending_def)
  have r: "SendPacket t s = SendPacket_send t k (s\<lparr> m_retxSeqs := [] \<rparr>)"
    using a assms(2) by (simp add: SendPacket_cases)
  have v: "retx_count (s\<lparr> m_retxSeqs := [] \<rparr>) = retx_count s"
    "m_seqTimeouts (s\<lparr> m_retxSeqs := [] \<rparr>) = []" "m_retxSeqs (s\<lparr> m_retxSeqs := [] \<rparr>) = []"
    "m_active (s\<lparr> m_retxSeqs := [] \<rparr>)" "m_retxNum (s\<lparr> m_retxSeqs := [] \<rparr>) = m_retxNum s"
    "m_seq (s\<lparr> m_retxSeqs := [] \<rparr>) = m_seq s"
    using a by (simp_all add: retx_count_def fun_eq_iff)
  show "waiting k t (n + 1) (fst (SendPacket t s))"
    unfolding r
    by (simp add: waiting_def fst_SendPacket_send WaitBefore_view WaitBefore_timeouts v a
        ledger_insert_Nil)
  show "sends k (snd (SendPacket t s)) = 1" "discards k (snd (SendPacket t s)) = 0"
    unfolding r by (simp_all add: SendPacket_send_counts)
  show "m_retxNum (fst (SendPacket t s)) = m_retxNum s" "m_seq (fst (SendPacket t s)) = m_seq s"
    unfolding r by (simp_all add: fst_SendPacket_send WaitBefore_view v)
qed

lemma loop_single:
  assumes "m_seqTimeouts s = [e]" "time e + rto \<le> now"
  shows "CheckRetxTimeout_loop now rto s = OnTimeout (seq e) (s\<lparr> m_seqTimeouts := [] \<rparr>)"
proof -
  let ?s0 = "s\<lparr> m_seqTimeouts := [] \<rparr>"
  have t: "m_seqTimeouts (fst (OnTimeout (seq e) ?s0)) = []"
    by (cases "retx_count ?s0 (seq e) < m_retxNum ?s0")
      (simp_all add: OnTimeout_retry_view OnTimeout_discard_view ledger_erase_Nil)
  show ?thesis
    using loop_expired [OF assms] loop_Nil [OF t, of now rto] by (simp add: prod_eq_iff)
qed

lemma CheckRetxTimeout_retry:
  assumes "waiting k t n s" "t + r \<le> c" "n < m_retxNum s"
  shows "pending k n (fst (CheckRetxTimeout c r s))"
    "sends k (snd (CheckRetxTimeout c r s)) = 0" "discards k (snd (CheckRetxTimeout c r s)) = 0"
    "m_retxNum (fst (CheckRetxTimeout c r s)) = m_retxNum s"
    "m_seq (fst (CheckRetxTimeout c r s)) = m_seq s"
proof -
  let ?s0 = "s\<lparr> m_seqTimeouts := [] \<rparr>"
  have a: "m_active s" "m_seqTimeouts s = [SeqTimeout k t]" "m_retxSeqs s = []"
    "retx_count s k = n"
    using assms(1) by (simp_all add: waiting_def)
  have l: "CheckRetxTimeout_loop c r s = OnTimeout k ?s0"
    using loop_single [OF a(2), of r c] assms(2) by simp
  have lt: "retx_count ?s0 k < m_retxNum ?s0"
    using assms(3) a(4) by (simp add: timeouts_tl_view)
  note v = OnTimeout_retry_view [OF lt]
  show "pending k n (fst (CheckRetxTimeout c r s))"
    using a
    by (simp add: pending_def CheckRetxTimeout_fst l v OnTimeout_scalars timeouts_tl_view
        set_insert_def)
  show "sends k (snd (CheckRetxTimeout c r s)) = 0" "discards k (snd (CheckRetxTimeout c r s)) = 0"
    by (simp_all add: CheckRetxTimeout_counts l) (simp_all add: v sends_def discards_def)
  show "m_retxNum (fst (CheckRetxTimeout c r s)) = m_retxNum s"
    "m_seq (fst (CheckRetxTimeout c r s)) = m_seq s"
    by (simp_all add: CheckRetxTimeout_fst l OnTimeout_scalars)
qed

lemma CheckRetxTimeout_discard:
  assumes "waiting k t n s" "t + r \<le> c" "\<not> n < m_retxNum s"
  shows "\<not> inflight (fst (CheckRetxTimeout c r s)) k"
    "sends k (snd (CheckRetxTimeout c r s)) = 0" "discards k (snd (CheckRetxTimeout c r s)) = 1"
    "m_seq (fst (CheckRetxTimeout c r s)) = m_seq s"
proof -
  let ?s0 = "s\<lparr> m_seqTimeouts := [] \<rparr>"
  have a: "m_active s" "m_seqTimeouts s = [SeqTimeout k t]" "m_retxSeqs s = []"
    "retx_count s k = n"
    using assms(1) by (simp_all add: waiting_def)
  have l: "CheckRetxTimeout_loop c r s = OnTimeout k ?s0"
    using loop_single [OF a(2), of r c] assms(2) by simp
  have ge: "\<not> retx_count ?s0 k < m_retxNum ?s0"
    using assms(3) a(4) by (simp add: timeouts_tl_view)
  note v = OnTimeout_discard_view [OF ge]
  show "\<not> inflight (fst (CheckRetxTimeout c r s)) k"
    by (simp add: CheckRetxTimeout_fst l v inflight_def seq_keys_ledger_erase)
  show "sends k (snd (CheckRetxTimeout c r s)) = 0" "discards k (snd (CheckRetxTimeout c r s)) = 1"
    by (simp_all add: CheckRetxTimeout_counts l) (simp_all add: v sends_def discards_def)
  show "m_seq (fst (CheckRetxTimeout c r s)) = m_seq s"
    by (simp add: CheckRetxTimeout_fst l OnTimeout_scalars)
qed

text \<open>Three rounds of a send and a check that finds it expired.\<close>

definition three_rounds ::
  "simtime \<Rightarrow> simtime \<Rightarrow> simtime \<Rightarrow> simtime \<Rightarrow> simtime \<Rightarrow> simtime \<Rightarrow> simtime \<Rightarrow> simtime
     \<Rightarrow> simtime \<Rightarrow> event list" where
  "three_rounds ta ca ra tb cb rb tc cc rc =
     [Ev_SendPacket ta, Ev_CheckRetxTimeout ca ra, Ev_SendPacket tb, Ev_CheckRetxTimeout cb rb,
      Ev_SendPacket tc, Ev_CheckRetxTimeout cc rc]"

lemma three_rounds_run:
  assumes f: "full_inv s" and n3: "m_retxNum s = 3" and km: "k \<noteq> uint32_max"
    and ni: "\<not> inflight s k" and act: "m_active s" and sq: "m_seq s = k"
    and lim: "m_seqMax s = uint32_max \<or> k < m_seqMax s"
    and T0: "m_seqTimeouts s = []" and R0: "m_retxSeqs s = []"
    and x1: "ta + ra \<le> ca" and x2: "tb + rb \<le> cb" and x3: "tc + rc \<le> cc"
  shows "sends k (snd (run s (three_rounds ta ca ra tb cb rb tc cc rc))) = 3"
    "discards k (snd (run s (three_rounds ta ca ra tb cb rb tc cc rc))) = 1"
    "\<not> inflight (fst (run s (three_rounds ta ca ra tb cb rb tc cc rc))) k"
    "minted s (three_rounds ta ca ra tb cb rb tc cc rc) = [k]"
proof -
  let ?s1 = "fst (SendPacket ta s)"
  let ?s2 = "fst (CheckRetxTimeout ca ra ?s1)"
  let ?s3 = "fst (SendPacket tb ?s2)"
  let ?s4 = "fst (CheckRetxTimeout cb rb ?s3)"
  let ?s5 = "fst (SendPacket tc ?s4)"
  let ?s6 = "fst (CheckRetxTimeout cc rc ?s5)"
  have z: "retx_count s k = 0" by (rule retx_count_idle [OF full_invD(2) [OF f] ni])
  note a1 = SendPacket_mint [OF act T0 R0 sq lim, of ta]
  have w1: "waiting k ta 1 ?s1" using a1(1) z by simp
  have m1: "m_retxNum ?s1 = 3" using a1(4) n3 by simp
  note a2 = CheckRetxTimeout_retry [OF w1 x1]
  have lt1: "(1 :: 32 word) < m_retxNum ?s1" using m1 by simp
  note b2 = a2 [OF lt1]
  have m2: "m_retxNum ?s2 = 3" using b2(4) m1 by simp
  note a3 = SendPacket_resend [OF b2(1) km, of tb]
  have w3: "waiting k tb 2 ?s3" using a3(1) by simp
  have m3: "m_retxNum ?s3 = 3" using a3(4) m2 by simp
  have lt3: "(2 :: 32 word) < m_retxNum ?s3" using m3 by simp
  note b4 = CheckRetxTimeout_retry [OF w3 x2 lt3]
  have m4: "m_retxNum ?s4 = 3" using b4(4) m3 by simp
  note a5 = SendPacket_resend [OF b4(1) km, of tc]
  have w5: "waiting k tc 3 ?s5" using a5(1) by simp
  have m5: "m_retxNum ?s5 = 3" using a5(4) m4 by simp
  have ge5: "\<not> (3 :: 32 word) < m_retxNum ?s5" using m5 by simp
  note b6 = CheckRetxTimeout_discard [OF w5 x3 ge5]
  have fs: "fst (run s (three_rounds ta ca ra tb cb rb tc cc rc)) = ?s6"
    by (simp only: three_rounds_def run_Cons_fst run.simps(1) step.simps fst_conv)
  have sn: "snd (run s (three_rounds ta ca ra tb cb rb tc cc rc)) =
      snd (SendPacket ta s) @ snd (CheckRetxTimeout ca ra ?s1) @ snd (SendPacket tb ?s2)
      @ snd (CheckRetxTimeout cb rb ?s3) @ snd (SendPacket tc ?s4)
      @ snd (CheckRetxTimeout cc rc ?s5)"
    by (simp only: three_rounds_def run_Cons_fst run_Cons_snd run.simps(1) step.simps fst_conv
        snd_conv append_Nil2)
  show "sends k (snd (run s (three_rounds ta ca ra tb cb rb tc cc rc))) = 3"
    unfolding sn using a1(2) b2(2) a3(2) b4(2) a5(2) b6(2) by simp
  show "discards k (snd (run s (three_rounds ta ca ra tb cb rb tc cc rc))) = 1"
    unfolding sn using a1(3) b2(3) a3(3) b4(3) a5(3) b6(3) by simp
  show "\<not> inflight (fst (run s (three_rounds ta ca ra tb cb rb tc cc rc))) k"
    unfolding fs by (rule b6(1))
  have q: "m_seq ?s1 = k + 1" "m_seq ?s2 = k + 1" "m_seq ?s3 = k + 1" "m_seq ?s4 = k + 1"
    "m_seq ?s5 = k + 1" "m_seq ?s6 = k + 1"
    using a1(5) b2(5) a3(5) b4(5) a5(5) b6(4) by simp_all
  show "minted s (three_rounds ta ca ra tb cb rb tc cc rc) = [k]"
    using q sq by (simp add: three_rounds_def)
qed

section \<open>Scenarios\<close>

text \<open>
  \<open>ex_single\<close>: an active consumer limited to sequence number 0, with the default
  budget; \<open>ex_timeouts\<close>: ticks and timeout checks in turn, each check after the
  timeout of the send before it. \<open>ex_seven\<close>: an active consumer limited to sequence
  number 7; \<open>ex_two_retx\<close>: a send of it and two retransmissions.
\<close>

definition ex_single :: consumer where
  "ex_single = (Consumer True 50)\<lparr> m_seqMax := 1 \<rparr>"

definition ex_timeouts :: "event list" where
  "ex_timeouts =
     [Ev_SendPacket 0, Ev_CheckRetxTimeout 100 50, Ev_SendPacket 100,
      Ev_CheckRetxTimeout 200 50, Ev_SendPacket 200, Ev_CheckRetxTimeout 300 50,
      Ev_SendPacket 300, Ev_CheckRetxTimeout 400 50, Ev_SendPacket 400]"

definition ex_seven :: consumer where
  "ex_seven = (Consumer True 50)\<lparr> m_seq := 7, m_seqMax := 8 \<rparr>"

definition ex_two_retx :: "event list" where
  "ex_two_retx =
     [Ev_SendPacket 0, Ev_CheckRetxTimeout 100 50, Ev_SendPacket 100,
      Ev_CheckRetxTimeout 200 50, Ev_SendPacket 200]"


lemma ex_single_effects:
  "snd (run ex_single ex_timeouts) =
     [Rtt_SetInterestInfo 0, Cout_SendInterest 0, Trace_transmittedInterests 0,
      Face_onReceiveInterest 0, ScheduleNextPacket,
      Rtt_IncreaseMultiplier, Rtt_SentSeq 0, ScheduleNextPacket, Schedule_CheckRetxTimeout 50,
      Rtt_SetInterestInfo 0, Cout_SendInterest 0, Trace_transmittedInterests 0,
      Face_onReceiveInterest 0, ScheduleNextPacket,
      Rtt_IncreaseMultiplier, Rtt_SentSeq 0, ScheduleNextPacket, Schedule_CheckRetxTimeout 50,
      Rtt_SetInterestInfo 0, Cout_SendInterest 0, Trace_transmittedInterests 0,
      Face_onReceiveInterest 0, ScheduleNextPacket,
      Rtt_IncreaseMultiplier, Rtt_DiscardInterestBySeq 0, Schedule_CheckRetxTimeout 50,
      Schedule_CheckRetxTimeout 50]"
  by (simp add: ex_single_def ex_timeouts_def model_defs)

lemma ex_single_final:
  "m_seqFullDelay (fst (run ex_single ex_timeouts)) = []"
  "m_seqLastDelay (fst (run ex_single ex_timeouts)) = []"
  "m_seqTimeouts (fst (run ex_single ex_timeouts)) = []"
  "m_retxSeqs (fst (run ex_single ex_timeouts)) = []"
  "dom (m_seqRetxCounts (fst (run ex_single ex_timeouts))) = {}"
  by (simp_all add: ex_single_def ex_timeouts_def model_defs)

lemma ex_single_minted: "minted ex_single ex_timeouts = [0]"
  by (simp add: ex_single_def ex_timeouts_def model_defs)

lemma ex_single_third:
  "snd (run ex_single ex_two_retx) =
     [Rtt_SetInterestInfo 0, Cout_SendInterest 0, Trace_transmittedInterests 0,
      Face_onReceiveInterest 0, ScheduleNextPacket,
      Rtt_IncreaseMultiplier, Rtt_SentSeq 0, ScheduleNextPacket, Schedule_CheckRetxTimeout 50,
      Rtt_SetInterestInfo 0, Cout_SendInterest 0, Trace_transmittedInterests 0,
      Face_onReceiveInterest 0, ScheduleNextPacket,
      Rtt_IncreaseMultiplier, Rtt_SentSeq 0, ScheduleNextPacket, Schedule_CheckRetxTimeout 50,
      Rtt_SetInterestInfo 0, Cout_SendInterest 0, Trace_transmittedInterests 0,
      Face_onReceiveInterest 0, ScheduleNextPacket]"
  "m_seqTimeouts (fst (run ex_single ex_two_retx)) = [SeqTimeout 0 200]"
  "minted ex_single ex_two_retx = [0]"
  by (simp_all add: ex_single_def ex_two_retx_def model_defs)


lemma ex_seven_run:
  "snd (run ex_seven ex_two_retx) =
     [Rtt_SetInterestInfo 7, Cout_SendInterest 7, Trace_transmittedInterests 7,
      Face_onReceiveInterest 7, ScheduleNextPacket,
      Rtt_IncreaseMultiplier, Rtt_SentSeq 7, ScheduleNextPacket, Schedule_CheckRetxTimeout 50,
      Rtt_SetInterestInfo 7, Cout_SendInterest 7, Trace_transmittedInterests 7,
      Face_onReceiveInterest 7, ScheduleNextPacket,
      Rtt_IncreaseMultiplier, Rtt_SentSeq 7, ScheduleNextPacket, Schedule_CheckRetxTimeout 50,
      Rtt_SetInterestInfo 7, Cout_SendInterest 7, Trace_transmittedInterests 7,
      Face_onReceiveInterest 7, ScheduleNextPacket]"
  "m_active (fst (run ex_seven ex_two_retx))"
  "m_seqFullDelay (fst (run ex_seven ex_two_retx)) = [SeqTimeout 7 0]"
  "m_seqLastDelay (fst (run ex_seven ex_two_retx)) = [SeqTimeout 7 200]"
  "m_seqRetxCounts (fst (run ex_seven ex_two_retx)) 7 = Some 3"
  by (simp_all add: ex_seven_def ex_two_retx_def model_defs)

lemma ex_seven_minted: "minted ex_seven ex_two_retx = [7]"
  by (simp add: ex_seven_def ex_two_retx_def model_defs)

lemma ex_seven_OnData:
  "snd (OnData 250 7 0 (fst (run ex_seven ex_two_retx))) =
     [App_OnData 7, Trace_lastRetransmittedInterestDataDelay 7 50 0,
      Trace_firstInterestDataDelay 7 250 3 0, Rtt_AckSeq 7]"
  by (simp add: OnData_effects ex_seven_run retx_count_def ledger_find_Cons)

lemma full_inv_config:
  "full_inv ((Consumer a t)\<lparr> m_seq := x, m_seqMax := y \<rparr>)"
  "full_inv ((Consumer a t)\<lparr> m_seqMax := y \<rparr>)"
  using full_inv_Consumer [of a t]
  by (simp_all add: full_inv_def consumer_inv_def containers_wf_def ledger_inv_def
      retx_disjoint_def pending_inv_def retx_count_def)

lemma count_simps:
  "sends k (x # xs) = (if x = Face_onReceiveInterest k then 1 else 0) + sends k xs"
  "discards k (x # xs) = (if x = Rtt_DiscardInterestBySeq k then 1 else 0) + discards k xs"
  "first_delays k (x # xs) = (if is_first_delay k x then 1 else 0) + first_delays k xs"
  "last_delays k (x # xs) = (if is_last_delay k x then 1 else 0) + last_delays k xs"
  by (simp_all add: sends_def discards_def first_delays_def last_delays_def)

subsection \<open>The retry budget\<close>

text \<open>
  Claim C1, as stated, fails. \<open>ex_single\<close> has the default \<open>m_retxNum\<close> 3 and mints
  only sequence number 0; in \<open>ex_timeouts\<close> no Data arrives, every send is followed by
  a check that finds it expired, and ticks go on after that. Sequence number 0 is sent
  three times, not four, and the third timeout discards it.
\<close>

theorem retry_budget_counterexample:
  "m_retxNum ex_single = 3 \<and> filter (data_for 0) ex_timeouts = []
   \<and> sends 0 (snd (run ex_single ex_timeouts)) = 3
   \<and> discards 0 (snd (run ex_single ex_timeouts)) = 1
   \<and> sends 0 (snd (run ex_single ex_timeouts)) \<noteq> 4
   \<and> \<not> inflight (fst (run ex_single ex_timeouts)) 0"
  by (simp add: ex_single_effects ex_single_final count_simps inflight_def seq_keys_Nil)
    (simp add: ex_single_def Consumer_def ex_timeouts_def)

text \<open>
  Claim C1, amended. With \<open>m_retxNum\<close> 3, take a sequence number \<open>k\<close> other than
  \<open>0xFFFFFFFF\<close> (whose pending retransmission the tick drops, see the scheduling tick)
  and an execution from a state satisfying the invariant where \<open>k\<close> has no ledger
  entry, in which \<open>k\<close> is minted at most once and no Data for \<open>k\<close> arrives; \<open>s'\<close> and
  \<open>effs\<close> are the state and the effects at its end.
  \<^item> \<open>k\<close> is sent at most 3 times and discarded at most once: there is no 4th send.
  \<^item> When it has been discarded it has been sent exactly 3 times, the original send
    and 2 retransmissions, and it is in no ledger, counter or set.
  \<^item> While it has been sent and not discarded, its counter reads the number of sends
    and it has a timeout entry or waits in the retransmission set; after the 3rd send
    it has a timeout entry.
  \<^item> A timeout check that finds its entry expired queues its retransmission when it
    has been sent fewer than 3 times; after the 3rd send that check discards it and
    leaves it in no ledger, counter or set.
  \<^item> The tick of an active consumer that finds it first in the retransmission set
    sends it.
  \<^item> When \<open>k\<close> is the next number of an active consumer with nothing else outstanding
    and the execution starts with three rounds of a tick and a timeout check that
    finds the send expired, whatever follows in it, \<open>k\<close> has been sent exactly 3
    times and discarded once at the end, and is in no ledger, counter or set.
\<close>

theorem retry_budget_sends:
  assumes f: "full_inv s" and n3: "m_retxNum s = 3" and km: "k \<noteq> uint32_max"
    and ni: "\<not> inflight s k"
    and nd: "\<forall>e \<in> set es. \<not> data_for k e" and mt: "count_list (minted s es) k \<le> 1"
    and run: "run s es = (s', effs)"
  shows "sends k effs \<le> 3 \<and> discards k effs \<le> 1
    \<and> (discards k effs = 1 \<longrightarrow> sends k effs = 3 \<and> absent k s')
    \<and> (discards k effs = 0 \<and> 1 \<le> sends k effs \<longrightarrow>
          unat (retx_count s' k) = sends k effs
          \<and> (k \<in> seq_keys (m_seqTimeouts s') \<or> k \<in> set (m_retxSeqs s'))
          \<and> (sends k effs = 3 \<longrightarrow> k \<in> seq_keys (m_seqTimeouts s')))
    \<and> (ledger_find k (m_seqTimeouts s') = Some e \<and> time e + rto \<le> now \<longrightarrow>
          (sends k effs < 3 \<longrightarrow>
             discards k (snd (CheckRetxTimeout now rto s')) = 0
             \<and> k \<in> set (m_retxSeqs (fst (CheckRetxTimeout now rto s'))))
          \<and> (sends k effs = 3 \<longrightarrow>
             discards k (snd (CheckRetxTimeout now rto s')) = 1
             \<and> absent k (fst (CheckRetxTimeout now rto s'))))
    \<and> (m_active s' \<and> m_retxSeqs s' \<noteq> [] \<and> hd (m_retxSeqs s') = k \<longrightarrow>
          sends k (snd (SendPacket now s')) = 1
          \<and> k \<in> seq_keys (m_seqTimeouts (fst (SendPacket now s'))))
    \<and> (m_active s \<and> m_seq s = k \<and> (m_seqMax s = uint32_max \<or> k < m_seqMax s)
          \<and> m_seqTimeouts s = [] \<and> m_retxSeqs s = []
          \<and> ta + ra \<le> ca \<and> tb + rb \<le> cb \<and> tc + rc \<le> cc
          \<and> es = three_rounds ta ca ra tb cb rb tc cc rc @ es' \<longrightarrow>
          sends k effs = 3 \<and> discards k effs = 1 \<and> absent k s')"
proof -
  have b: "budget s = 3" using n3 by (simp add: budget_def)
  have S: "fst (run s es) = s'" "snd (run s es) = effs" using run by simp_all
  have f': "full_inv s'" using full_inv_run [OF f, of es] by (simp add: S)
  have n': "m_retxNum s' = 3" using run_retxNum [OF f, of es] n3 by (simp add: S)
  have l': "ledger_inv s'" and p': "pending_inv s'" using f' by (rule full_invD)+
  have ph: "(inflight s' k \<longrightarrow>
        unat (retx_count s' k) = sends k effs \<and> 1 \<le> sends k effs \<and> sends k effs \<le> 3
        \<and> discards k effs = 0)
      \<and> (\<not> inflight s' k \<longrightarrow>
        (sends k effs = 0 \<and> discards k effs = 0) \<or> (sends k effs = 3 \<and> discards k effs = 1))"
    using run_phases [OF f ni nd mt] by (simp add: S b)
  have sc: "inflight s' k \<longrightarrow> scheduled s' k"
    using run_sched [OF f km, of es] ni by (simp add: S)
  have lt: "retx_count s' k < m_retxNum s' \<longleftrightarrow> unat (retx_count s' k) < 3"
    by (simp add: n' word_less_nat_alt)
  have px: "k \<in> set (m_retxSeqs s') \<Longrightarrow> unat (retx_count s' k) < 3"
    using p' lt by (auto simp: pending_inv_def)
  have A: "sends k effs \<le> 3 \<and> discards k effs \<le> 1"
    using ph by (cases "inflight s' k") auto
  have B: "discards k effs = 1 \<longrightarrow> sends k effs = 3 \<and> absent k s'"
  proof
    assume d: "discards k effs = 1"
    then have i: "\<not> inflight s' k" using ph by auto
    with ph d have "sends k effs = 3" by auto
    then show "sends k effs = 3 \<and> absent k s'" using idle_absent [OF f' i] by simp
  qed
  have C: "discards k effs = 0 \<and> 1 \<le> sends k effs \<longrightarrow>
      unat (retx_count s' k) = sends k effs
      \<and> (k \<in> seq_keys (m_seqTimeouts s') \<or> k \<in> set (m_retxSeqs s'))
      \<and> (sends k effs = 3 \<longrightarrow> k \<in> seq_keys (m_seqTimeouts s'))"
  proof
    assume a: "discards k effs = 0 \<and> 1 \<le> sends k effs"
    then have i: "inflight s' k" using ph by auto
    then have u: "unat (retx_count s' k) = sends k effs" using ph by simp
    have s: "k \<in> seq_keys (m_seqTimeouts s') \<or> k \<in> set (m_retxSeqs s')"
      using sc i by (simp add: scheduled_def)
    have "sends k effs = 3 \<longrightarrow> k \<in> seq_keys (m_seqTimeouts s')"
      using s px u by auto
    with u s show "unat (retx_count s' k) = sends k effs
      \<and> (k \<in> seq_keys (m_seqTimeouts s') \<or> k \<in> set (m_retxSeqs s'))
      \<and> (sends k effs = 3 \<longrightarrow> k \<in> seq_keys (m_seqTimeouts s'))" by simp
  qed
  have D: "ledger_find k (m_seqTimeouts s') = Some e \<and> time e + rto \<le> now \<longrightarrow>
      (sends k effs < 3 \<longrightarrow>
         discards k (snd (CheckRetxTimeout now rto s')) = 0
         \<and> k \<in> set (m_retxSeqs (fst (CheckRetxTimeout now rto s'))))
      \<and> (sends k effs = 3 \<longrightarrow>
         discards k (snd (CheckRetxTimeout now rto s')) = 1
         \<and> absent k (fst (CheckRetxTimeout now rto s')))"
  proof
    assume a: "ledger_find k (m_seqTimeouts s') = Some e \<and> time e + rto \<le> now"
    then have fk: "ledger_find k (m_seqTimeouts s') = Some e" and ex: "time e + rto \<le> now"
      by simp_all
    have "k \<in> seq_keys (m_seqTimeouts s')" using fk ledger_find_None_iff [of k "m_seqTimeouts s'"] by simp
    then have i: "inflight s' k" using l' by (auto simp: ledger_inv_def inflight_def)
    then have u: "unat (retx_count s' k) = sends k effs" using ph by simp
    note le = loop_expired_k [OF f' fk ex]
    have fc: "full_inv (fst (CheckRetxTimeout now rto s'))" by (rule full_inv_CheckRetxTimeout [OF f'])
    have r: "sends k effs < 3 \<longrightarrow>
         discards k (snd (CheckRetxTimeout now rto s')) = 0
         \<and> k \<in> set (m_retxSeqs (fst (CheckRetxTimeout now rto s')))"
      using le lt u by (simp add: CheckRetxTimeout_fst CheckRetxTimeout_counts)
    have d: "sends k effs = 3 \<longrightarrow>
         discards k (snd (CheckRetxTimeout now rto s')) = 1
         \<and> absent k (fst (CheckRetxTimeout now rto s'))"
    proof
      assume "sends k effs = 3"
      then have "\<not> retx_count s' k < m_retxNum s'" using lt u by simp
      with le have "discards k (snd (CheckRetxTimeout now rto s')) = 1"
        and "\<not> inflight (fst (CheckRetxTimeout now rto s')) k"
        by (simp_all add: CheckRetxTimeout_fst CheckRetxTimeout_counts)
      then show "discards k (snd (CheckRetxTimeout now rto s')) = 1
         \<and> absent k (fst (CheckRetxTimeout now rto s'))"
        using idle_absent [OF fc] by simp
    qed
    from r d show "(sends k effs < 3 \<longrightarrow>
         discards k (snd (CheckRetxTimeout now rto s')) = 0
         \<and> k \<in> set (m_retxSeqs (fst (CheckRetxTimeout now rto s'))))
      \<and> (sends k effs = 3 \<longrightarrow>
         discards k (snd (CheckRetxTimeout now rto s')) = 1
         \<and> absent k (fst (CheckRetxTimeout now rto s')))" by simp
  qed
  have E: "m_active s' \<and> m_retxSeqs s' \<noteq> [] \<and> hd (m_retxSeqs s') = k \<longrightarrow>
      sends k (snd (SendPacket now s')) = 1
      \<and> k \<in> seq_keys (m_seqTimeouts (fst (SendPacket now s')))"
    using SendPacket_head(1,2) [of s' k now] km by simp
  have F: "m_active s \<and> m_seq s = k \<and> (m_seqMax s = uint32_max \<or> k < m_seqMax s)
      \<and> m_seqTimeouts s = [] \<and> m_retxSeqs s = []
      \<and> ta + ra \<le> ca \<and> tb + rb \<le> cb \<and> tc + rc \<le> cc
      \<and> es = three_rounds ta ca ra tb cb rb tc cc rc @ es' \<longrightarrow>
      sends k effs = 3 \<and> discards k effs = 1 \<and> absent k s'"
  proof
    let ?rs = "three_rounds ta ca ra tb cb rb tc cc rc"
    assume a: "m_active s \<and> m_seq s = k \<and> (m_seqMax s = uint32_max \<or> k < m_seqMax s)
      \<and> m_seqTimeouts s = [] \<and> m_retxSeqs s = []
      \<and> ta + ra \<le> ca \<and> tb + rb \<le> cb \<and> tc + rc \<le> cc \<and> es = ?rs @ es'"
    then have h: "m_active s" "m_seq s = k" "m_seqMax s = uint32_max \<or> k < m_seqMax s"
      "m_seqTimeouts s = []" "m_retxSeqs s = []" "ta + ra \<le> ca" "tb + rb \<le> cb" "tc + rc \<le> cc"
      and es: "es = ?rs @ es'"
      by simp_all
    note t = three_rounds_run [OF f n3 km ni h]
    let ?s6 = "fst (run s ?rs)"
    have f6: "full_inv ?s6" by (rule full_inv_run [OF f])
    have m6: "count_list (minted ?s6 es') k = 0"
      using mt t(4) by (simp add: es minted_append)
    note id = run_idle [OF f6 t(3) m6]
    have "sends k effs = 3" "discards k effs = 1" "\<not> inflight s' k"
      using t(1,2) id by (simp_all add: S [symmetric] es run_append)
    then show "sends k effs = 3 \<and> discards k effs = 1 \<and> absent k s'"
      using idle_absent [OF f'] by simp
  qed
  from A B C D E F show ?thesis by (intro conjI) simp_all
qed

theorem retry_budget_sends_witness:
  "full_inv ex_single \<and> m_retxNum ex_single = 3 \<and> (0 :: seqno) \<noteq> uint32_max
   \<and> \<not> inflight ex_single 0
   \<and> filter (data_for 0) ex_timeouts = [] \<and> count_list (minted ex_single ex_timeouts) 0 = 1
   \<and> m_active ex_single \<and> m_seq ex_single = 0 \<and> 0 < m_seqMax ex_single
   \<and> m_seqTimeouts ex_single = [] \<and> m_retxSeqs ex_single = []
   \<and> ex_timeouts = three_rounds 0 100 50 100 200 50 200 300 50
        @ [Ev_SendPacket 300, Ev_CheckRetxTimeout 400 50, Ev_SendPacket 400]
   \<and> sends 0 (snd (run ex_single ex_timeouts)) = 3
   \<and> discards 0 (snd (run ex_single ex_timeouts)) = 1
   \<and> absent 0 (fst (run ex_single ex_timeouts))
   \<and> filter (data_for 0) ex_two_retx = [] \<and> count_list (minted ex_single ex_two_retx) 0 = 1
   \<and> sends 0 (snd (run ex_single ex_two_retx)) = 3
   \<and> discards 0 (snd (run ex_single ex_two_retx)) = 0
   \<and> ledger_find 0 (m_seqTimeouts (fst (run ex_single ex_two_retx))) = Some (SeqTimeout 0 200)
   \<and> discards 0 (snd (CheckRetxTimeout 300 50 (fst (run ex_single ex_two_retx)))) = 1
   \<and> absent 0 (fst (CheckRetxTimeout 300 50 (fst (run ex_single ex_two_retx))))"
proof -
  have f: "full_inv ex_single" unfolding ex_single_def by (rule full_inv_config)
  have n: "m_retxNum ex_single = 3" and i: "\<not> inflight ex_single 0"
    and h: "m_active ex_single" "m_seq ex_single = 0" "0 < m_seqMax ex_single"
      "m_seqTimeouts ex_single = []" "m_retxSeqs ex_single = []"
    by (simp_all add: ex_single_def Consumer_def inflight_def seq_keys_Nil)
  have km: "(0 :: seqno) \<noteq> uint32_max" by (simp add: uint32_max_def)
  have d: "\<forall>e \<in> set ex_timeouts. \<not> data_for 0 e" and d': "filter (data_for 0) ex_timeouts = []"
    and sp: "ex_timeouts = three_rounds 0 100 50 100 200 50 200 300 50
        @ [Ev_SendPacket 300, Ev_CheckRetxTimeout 400 50, Ev_SendPacket 400]"
    by (simp_all add: ex_timeouts_def three_rounds_def)
  have m: "count_list (minted ex_single ex_timeouts) 0 \<le> 1"
    and m': "count_list (minted ex_single ex_timeouts) 0 = 1"
    by (simp_all add: ex_single_minted)
  have x: "(0 :: int) + 50 \<le> 100" "(100 :: int) + 50 \<le> 200" "(200 :: int) + 50 \<le> 300"
    by simp_all
  have r: "run ex_single ex_timeouts =
      (fst (run ex_single ex_timeouts), snd (run ex_single ex_timeouts))"
    by simp
  note T = retry_budget_sends [OF f n km i d m r,
      where ta = 0 and ca = 100 and ra = 50 and tb = 100 and cb = 200 and rb = 50
        and tc = 200 and cc = 300 and rc = 50
        and es' = "[Ev_SendPacket 300, Ev_CheckRetxTimeout 400 50, Ev_SendPacket 400]"]
  have c: "sends 0 (snd (run ex_single ex_timeouts)) = 3
      \<and> discards 0 (snd (run ex_single ex_timeouts)) = 1
      \<and> absent 0 (fst (run ex_single ex_timeouts))"
    using T h sp x by blast
  have d2: "\<forall>e \<in> set ex_two_retx. \<not> data_for 0 e"
    and d2': "filter (data_for 0) ex_two_retx = []"
    by (simp_all add: ex_two_retx_def)
  have m2: "count_list (minted ex_single ex_two_retx) 0 \<le> 1"
    and m2': "count_list (minted ex_single ex_two_retx) 0 = 1"
    by (simp_all add: ex_single_third)
  have e2: "sends 0 (snd (run ex_single ex_two_retx)) = 3"
    "discards 0 (snd (run ex_single ex_two_retx)) = 0"
    by (simp_all add: ex_single_third count_simps)
  have l2: "ledger_find 0 (m_seqTimeouts (fst (run ex_single ex_two_retx))) = Some (SeqTimeout 0 200)"
    and x2: "time (SeqTimeout 0 200) + 50 \<le> 300"
    by (simp_all add: ex_single_third ledger_find_Cons)
  have r2: "run ex_single ex_two_retx =
      (fst (run ex_single ex_two_retx), snd (run ex_single ex_two_retx))"
    by simp
  note T2 = retry_budget_sends [OF f n km i d2 m2 r2,
      where e = "SeqTimeout 0 200" and rto = 50 and now = 300]
  have c2: "discards 0 (snd (CheckRetxTimeout 300 50 (fst (run ex_single ex_two_retx)))) = 1
      \<and> absent 0 (fst (CheckRetxTimeout 300 50 (fst (run ex_single ex_two_retx))))"
    using T2 e2(1) l2 x2 by blast
  show ?thesis
    using f n km i d' m' h sp c d2' m2' e2 l2 c2 by (intro conjI) simp_all
qed

subsection \<open>The count reported with the first-send delay\<close>

text \<open>
  Claim C2, as stated, fails. In \<open>ex_two_retx\<close> sequence number 7 is sent, times out,
  is resent, times out and is resent: two retransmissions. The Data that arrives then
  makes \<open>OnData\<close> report 3 with the first-send delay, not 2: the counter counts sends.
\<close>

theorem OnData_retry_count_counterexample:
  "filter (data_for 7) ex_two_retx = [] \<and> minted ex_seven ex_two_retx = [7]
   \<and> sends 7 (snd (run ex_seven ex_two_retx)) = 1 + 2
   \<and> snd (OnData 250 7 0 (fst (run ex_seven ex_two_retx))) =
       [App_OnData 7, Trace_lastRetransmittedInterestDataDelay 7 50 0,
        Trace_firstInterestDataDelay 7 250 3 0, Rtt_AckSeq 7]
   \<and> Trace_firstInterestDataDelay 7 250 2 0
       \<notin> set (snd (OnData 250 7 0 (fst (run ex_seven ex_two_retx))))"
  by (simp add: ex_seven_OnData ex_seven_minted ex_seven_run(1) count_simps)
    (simp add: ex_two_retx_def)

text \<open>
  Claim C2, amended. When a Data packet for \<open>k\<close> arrives at an active consumer after an
  execution in which \<open>k\<close> was minted once, got no Data and is still in the ledgers,
  \<open>OnData\<close> emits the last-send delay and the first-send delay, the latter with the
  number of times \<open>k\<close> has been sent (3 after 2 retransmissions), and afterwards no
  ledger, counter or set has an entry for \<open>k\<close>.
\<close>

theorem OnData_reports_send_count:
  assumes "full_inv s" and "\<not> inflight s k" and "\<forall>e \<in> set es. \<not> data_for k e"
    and "count_list (minted s es) k \<le> 1"
    and "inflight (fst (run s es)) k" and "m_active (fst (run s es))"
  shows "(\<exists>d1 d2. snd (OnData now k h (fst (run s es))) =
            [App_OnData k, Trace_lastRetransmittedInterestDataDelay k d1 h,
             Trace_firstInterestDataDelay k d2 (of_nat (sends k (snd (run s es)))) h,
             Rtt_AckSeq k])
    \<and> absent k (fst (OnData now k h (fst (run s es))))
    \<and> 1 \<le> sends k (snd (run s es))"
proof -
  let ?s' = "fst (run s es)"
  have f': "full_inv ?s'" by (rule full_inv_run [OF assms(1)])
  then have l: "ledger_inv ?s'" by (rule full_invD)
  note r = run_lifetime [OF assms(1,2,3,4)]
  have u: "unat (retx_count ?s' k) = sends k (snd (run s es))" using r assms(5) by simp
  have c: "retx_count ?s' k = of_nat (sends k (snd (run s es)))"
    by (simp flip: u)
  have "k \<in> seq_keys (m_seqFullDelay ?s')" "k \<in> seq_keys (m_seqLastDelay ?s')"
    using assms(5) l by (simp_all add: inflight_def ledger_inv_def)
  then obtain e1 e2 where e: "ledger_find k (m_seqFullDelay ?s') = Some e1"
    "ledger_find k (m_seqLastDelay ?s') = Some e2"
    using ledger_find_None_iff [of k "m_seqFullDelay ?s'"]
      ledger_find_None_iff [of k "m_seqLastDelay ?s'"] by fastforce
  have eff: "snd (OnData now k h ?s') =
      [App_OnData k, Trace_lastRetransmittedInterestDataDelay k (now - time e2) h,
       Trace_firstInterestDataDelay k (now - time e1) (of_nat (sends k (snd (run s es)))) h,
       Rtt_AckSeq k]"
    using e c assms(6) by (simp add: OnData_effects)
  have ab: "absent k (fst (OnData now k h ?s'))"
    using assms(6) by (simp add: OnData_state absent_erase_seq)
  have tr: "1 \<le> sends k (snd (run s es))" using r assms(5) by simp
  from eff ab tr show ?thesis by blast
qed

definition ex_acked :: "event list" where
  "ex_acked = ex_two_retx @ [Ev_OnData 250 7 0, Ev_OnData 260 7 0, Ev_CheckRetxTimeout 500 50]"

lemma ex_acked_effects:
  "snd (run ex_seven ex_acked) =
     [Rtt_SetInterestInfo 7, Cout_SendInterest 7, Trace_transmittedInterests 7,
      Face_onReceiveInterest 7, ScheduleNextPacket,
      Rtt_IncreaseMultiplier, Rtt_SentSeq 7, ScheduleNextPacket, Schedule_CheckRetxTimeout 50,
      Rtt_SetInterestInfo 7, Cout_SendInterest 7, Trace_transmittedInterests 7,
      Face_onReceiveInterest 7, ScheduleNextPacket,
      Rtt_IncreaseMultiplier, Rtt_SentSeq 7, ScheduleNextPacket, Schedule_CheckRetxTimeout 50,
      Rtt_SetInterestInfo 7, Cout_SendInterest 7, Trace_transmittedInterests 7,
      Face_onReceiveInterest 7, ScheduleNextPacket,
      App_OnData 7, Trace_lastRetransmittedInterestDataDelay 7 50 0,
      Trace_firstInterestDataDelay 7 250 3 0, Rtt_AckSeq 7,
      App_OnData 7, Rtt_AckSeq 7, Schedule_CheckRetxTimeout 50]"
  by (simp add: ex_seven_def ex_acked_def ex_two_retx_def model_defs)

lemma ex_acked_minted: "minted ex_seven ex_acked = [7]"
  by (simp add: ex_seven_def ex_acked_def ex_two_retx_def model_defs)

text \<open>
  Claim C8. In every execution from a state satisfying the invariant, the number of
  acknowledgments of \<open>k\<close> (calls of \<open>OnData\<close> that emit the first-send delay; they are
  the calls that emit the last-send delay) plus the number of discards of \<open>k\<close> is at
  most the number of lifetimes of \<open>k\<close> in the execution: one if \<open>k\<close> is in the ledgers at
  the start, and one for each time the 32-bit counter mints \<open>k\<close>. So a sequence number
  that starts outside the ledgers and is minted at most once is resolved at most once.
\<close>

theorem resolved_at_most_once:
  assumes "full_inv s"
  shows "first_delays k (snd (run s es)) + discards k (snd (run s es))
           \<le> (if inflight s k then 1 else 0) + count_list (minted s es) k
    \<and> last_delays k (snd (run s es)) = first_delays k (snd (run s es))
    \<and> (\<not> inflight s k \<and> count_list (minted s es) k \<le> 1 \<longrightarrow>
          first_delays k (snd (run s es)) + discards k (snd (run s es)) \<le> 1)"
  using run_resolve [OF assms, of k es] run_last_first [OF assms, of k es]
  by (auto split: if_splits)

theorem resolved_at_most_once_witness:
  "full_inv ex_seven \<and> \<not> inflight ex_seven 7 \<and> count_list (minted ex_seven ex_acked) 7 = 1
   \<and> first_delays 7 (snd (run ex_seven ex_acked)) = 1
   \<and> last_delays 7 (snd (run ex_seven ex_acked)) = 1
   \<and> discards 7 (snd (run ex_seven ex_acked)) = 0
   \<and> first_delays 7 (snd (run ex_seven ex_acked)) + discards 7 (snd (run ex_seven ex_acked)) \<le> 1"
proof -
  have f: "full_inv ex_seven" unfolding ex_seven_def by (rule full_inv_config)
  have i: "\<not> inflight ex_seven 7"
    by (simp add: ex_seven_def Consumer_def inflight_def seq_keys_Nil)
  have m: "count_list (minted ex_seven ex_acked) 7 = 1" by (simp add: ex_acked_minted)
  have a: "first_delays 7 (snd (run ex_seven ex_acked)) = 1"
    "discards 7 (snd (run ex_seven ex_acked)) = 0"
    by (simp_all add: ex_acked_effects count_simps)
  show ?thesis
    using f i m a resolved_at_most_once [OF f, of 7 ex_acked] by simp
qed

theorem OnData_reports_send_count_witness:
  "full_inv ex_seven \<and> \<not> inflight ex_seven 7 \<and> filter (data_for 7) ex_two_retx = []
   \<and> count_list (minted ex_seven ex_two_retx) 7 = 1
   \<and> inflight (fst (run ex_seven ex_two_retx)) 7 \<and> m_active (fst (run ex_seven ex_two_retx))
   \<and> sends 7 (snd (run ex_seven ex_two_retx)) = 3
   \<and> snd (OnData 250 7 0 (fst (run ex_seven ex_two_retx))) =
       [App_OnData 7, Trace_lastRetransmittedInterestDataDelay 7 50 0,
        Trace_firstInterestDataDelay 7 250 3 0, Rtt_AckSeq 7]
   \<and> absent 7 (fst (OnData 250 7 0 (fst (run ex_seven ex_two_retx))))"
proof -
  have f: "full_inv ex_seven" unfolding ex_seven_def by (rule full_inv_config)
  have i: "\<not> inflight ex_seven 7"
    by (simp add: ex_seven_def Consumer_def inflight_def seq_keys_Nil)
  have d: "\<forall>e \<in> set ex_two_retx. \<not> data_for 7 e" and d': "filter (data_for 7) ex_two_retx = []"
    by (simp_all add: ex_two_retx_def)
  have m: "count_list (minted ex_seven ex_two_retx) 7 \<le> 1"
    and m': "count_list (minted ex_seven ex_two_retx) 7 = 1"
    by (simp_all add: ex_seven_minted)
  have fl: "inflight (fst (run ex_seven ex_two_retx)) 7"
    by (simp add: inflight_def ex_seven_run seq_keys_Cons)
  have ac: "m_active (fst (run ex_seven ex_two_retx))" by (rule ex_seven_run)
  have sn: "sends 7 (snd (run ex_seven ex_two_retx)) = 3"
    by (simp add: ex_seven_run(1) count_simps)
  show ?thesis
    using f i d' m' fl ac sn ex_seven_OnData
      OnData_reports_send_count [OF f i d m fl ac, of 250 0]
    by simp
qed

text \<open>
  Claim C10. The three events (a send tick, a Data arrival, a timeout check) preserve
  \<open>consumer_inv\<close>: the containers are well formed, the counters, the first-send ledger
  and the last-send ledger have the same keys, the keys of the timeout ledger are among
  them, and no element of the retransmission set has a timeout entry.
  \<open>WaitBeforeSendOutInterest\<close> always preserves the key sets, and the whole invariant
  for a sequence number that is not waiting in the set (as in \<open>SendPacket\<close>, which has
  just removed it). \<open>OnTimeout\<close> preserves the key sets for a sequence number that has a
  counter, and the whole invariant if it also has no timeout entry (as in
  \<open>CheckRetxTimeout\<close>, which has just erased it).
\<close>

theorem handlers_preserve_ledger_invariant:
  assumes "consumer_inv s"
  shows "consumer_inv (fst (SendPacket now s))
    \<and> consumer_inv (fst (OnData now k hopCount s))
    \<and> consumer_inv (fst (CheckRetxTimeout now rto s))
    \<and> ledger_inv (fst (WaitBeforeSendOutInterest now k s))
    \<and> (k \<notin> set (m_retxSeqs s) \<longrightarrow> consumer_inv (fst (WaitBeforeSendOutInterest now k s)))
    \<and> (k \<in> dom (m_seqRetxCounts s) \<longrightarrow> ledger_inv (fst (OnTimeout k s)))
    \<and> (k \<in> dom (m_seqRetxCounts s) \<and> k \<notin> seq_keys (m_seqTimeouts s) \<longrightarrow>
          consumer_inv (fst (OnTimeout k s)))"
proof -
  have l: "ledger_inv s" using assms by (simp add: consumer_inv_def)
  show ?thesis
    using consumer_inv_SendPacket [OF assms] consumer_inv_OnData [OF assms]
      consumer_inv_CheckRetxTimeout [OF assms] ledger_inv_WaitBefore [OF l]
      consumer_inv_WaitBefore [OF assms] ledger_inv_OnTimeout [OF l]
      consumer_inv_OnTimeout [OF assms]
    by blast
qed

lemma consumer_inv_ex_inflight: "consumer_inv ex_inflight"
  by (auto simp: ex_inflight_eq consumer_inv_def containers_wf_def ledger_inv_def retx_disjoint_def
      ledger_wf_def retx_wf_def seq_keys_Cons seq_keys_Nil)

theorem handlers_preserve_ledger_invariant_witness:
  "consumer_inv ex_inflight
   \<and> consumer_inv (fst (SendPacket 200 ex_inflight))
   \<and> consumer_inv (fst (OnData 200 2 0 ex_inflight))
   \<and> consumer_inv (fst (CheckRetxTimeout 200 100 ex_inflight))
   \<and> 2 \<notin> set (m_retxSeqs ex_inflight)
   \<and> consumer_inv (fst (WaitBeforeSendOutInterest 200 2 ex_inflight))
   \<and> 1 \<in> dom (m_seqRetxCounts ex_inflight) \<and> 1 \<notin> seq_keys (m_seqTimeouts ex_inflight)
   \<and> consumer_inv (fst (OnTimeout 1 ex_inflight))
   \<and> seq_keys (m_seqTimeouts (fst (CheckRetxTimeout 200 100 ex_inflight))) = {0}
   \<and> m_retxSeqs (fst (CheckRetxTimeout 200 100 ex_inflight)) = [1, 2]"
proof -
  note c = consumer_inv_ex_inflight
  have a: "2 \<notin> set (m_retxSeqs ex_inflight)" "1 \<in> dom (m_seqRetxCounts ex_inflight)"
    "1 \<notin> seq_keys (m_seqTimeouts ex_inflight)"
    by (simp_all add: ex_inflight_eq seq_keys_Cons seq_keys_Nil)
  have e: "seq_keys (m_seqTimeouts (fst (CheckRetxTimeout 200 100 ex_inflight))) = {0}"
    "m_retxSeqs (fst (CheckRetxTimeout 200 100 ex_inflight)) = [1, 2]"
    by (simp_all add: ex_inflight_eq model_defs)
  show ?thesis
    using c a e
      handlers_preserve_ledger_invariant [OF c, where now = 200 and k = 2 and hopCount = 0 and rto = 100]
      handlers_preserve_ledger_invariant [OF c, where now = 200 and k = 1 and hopCount = 0 and rto = 100]
    by simp
qed

section \<open>Fresh sequence numbers\<close>

fun is_tick :: "event \<Rightarrow> bool" where
  "is_tick (Ev_SendPacket now) = True"
| "is_tick e = False"

definition ticks :: "event list \<Rightarrow> nat" where
  "ticks es = length (filter is_tick es)"

definition ex_seven_ticks :: "event list" where
  "ex_seven_ticks =
     [Ev_SendPacket 0, Ev_SendPacket 10, Ev_SendPacket 20, Ev_OnData 25 1 0, Ev_SendPacket 30,
      Ev_CheckRetxTimeout 35 50, Ev_SendPacket 40, Ev_SendPacket 50, Ev_SendPacket 60]"

subsection \<open>Steps that leave the retransmission set empty\<close>

lemma OnTimeout_plain:
  "sent_seqs (snd (OnTimeout k s)) = []"
  "filter is_SentSeq (snd (OnTimeout k s)) = [] \<Longrightarrow> m_retxSeqs (fst (OnTimeout k s)) = m_retxSeqs s"
  by (cases "retx_count s k < m_retxNum s";
      simp add: OnTimeout_retry_view OnTimeout_discard_view sent_seqs_def)+

definition quiet_post :: "consumer \<Rightarrow> consumer \<times> effect list \<Rightarrow> bool" where
  "quiet_post s r =
     (sent_seqs (snd r) = [] \<and> m_seq (fst r) = m_seq s \<and> m_seqMax (fst r) = m_seqMax s
      \<and> m_active (fst r) = m_active s
      \<and> (filter is_SentSeq (snd r) = [] \<longrightarrow> m_retxSeqs (fst r) = m_retxSeqs s))"

lemma loop_quiet: "quiet_post s (CheckRetxTimeout_loop now rto s)"
proof (induction now rto s rule: CheckRetxTimeout_loop.induct)
  case (1 now rto s)
  show ?case
  proof (cases "m_seqTimeouts s")
    case Nil
    then show ?thesis by (simp add: loop_Nil quiet_post_def)
  next
    case (Cons e rest)
    show ?thesis
    proof (cases "time e + rto \<le> now")
      case False
      then show ?thesis using Cons by (simp add: loop_fresh quiet_post_def)
    next
      case True
      let ?r1 = "OnTimeout (seq e) (s\<lparr> m_seqTimeouts := rest \<rparr>)"
      note ih = "1.IH" [OF Cons True refl, unfolded quiet_post_def]
      note o = OnTimeout_plain [of "seq e" "s\<lparr> m_seqTimeouts := rest \<rparr>"]
      show ?thesis
        unfolding quiet_post_def
        using ih o by (simp add: loop_expired [OF Cons True] OnTimeout_scalars)
    qed
  qed
qed

lemma CheckRetxTimeout_quiet: "quiet_post s (CheckRetxTimeout now rto s)"
  using loop_quiet [of s now rto]
  by (simp add: quiet_post_def CheckRetxTimeout_def Let_def sent_seqs_def)

lemma OnData_plain:
  "sent_seqs (snd (OnData now k h s)) = []"
  "m_seq (fst (OnData now k h s)) = m_seq s"
  "m_seqMax (fst (OnData now k h s)) = m_seqMax s"
  "m_active (fst (OnData now k h s)) = m_active s"
  by (auto simp: OnData_effects OnData_state erase_seq_view sent_seqs_def split: option.splits)

lemma OnData_retx_empty: "m_retxSeqs s = [] \<Longrightarrow> m_retxSeqs (fst (OnData now k h s)) = []"
  by (simp add: OnData_state erase_seq_view set_erase_Nil)

text \<open>A tick either leaves the counter or mints its value; it mints only below the limit.\<close>

definition fresh_ok :: "consumer \<Rightarrow> bool" where
  "fresh_ok s = (m_active s \<and> (m_seqMax s = uint32_max \<or> m_seq s < m_seqMax s))"

lemma SendPacket_seq:
  "m_seqMax (fst (SendPacket now s)) = m_seqMax s"
  "m_active (fst (SendPacket now s)) = m_active s"
  "m_seq (fst (SendPacket now s)) = m_seq s \<or>
     (m_seq (fst (SendPacket now s)) = m_seq s + 1 \<and> fresh_ok s)"
  by (auto simp: SendPacket_cases fst_SendPacket_send WaitBefore_view fresh_ok_def not_le)

lemma SendPacket_empty:
  assumes "m_retxSeqs s = []"
  shows "m_retxSeqs (fst (SendPacket now s)) = []"
    "filter is_SentSeq (snd (SendPacket now s)) = []"
    "fresh_ok s \<Longrightarrow> m_seq (fst (SendPacket now s)) = m_seq s + 1
       \<and> sent_seqs (snd (SendPacket now s)) = [m_seq s]"
    "\<not> fresh_ok s \<Longrightarrow> m_seq (fst (SendPacket now s)) = m_seq s
       \<and> sent_seqs (snd (SendPacket now s)) = []"
  using assms
  by (auto simp: SendPacket_cases fst_SendPacket_send WaitBefore_view SendPacket_send_counts
      sent_seqs_send fresh_ok_def not_le)

lemma step_seq:
  "m_seqMax (fst (step s e)) = m_seqMax s"
  "m_active (fst (step s e)) = m_active s"
  "m_seq (fst (step s e)) = m_seq s \<or> (m_seq (fst (step s e)) = m_seq s + 1 \<and> fresh_ok s)"
proof -
  note c = CheckRetxTimeout_quiet [unfolded quiet_post_def]
  note d = OnData_plain
  show "m_seqMax (fst (step s e)) = m_seqMax s" "m_active (fst (step s e)) = m_active s"
    by (cases e; simp add: SendPacket_seq c d)+
  show "m_seq (fst (step s e)) = m_seq s \<or> (m_seq (fst (step s e)) = m_seq s + 1 \<and> fresh_ok s)"
    using SendPacket_seq(3) by (cases e) (simp_all add: c d)
qed

subsection \<open>The minted sequence numbers\<close>

lemma minted_consecutive:
  "minted s es = map (\<lambda>i. m_seq s + of_nat i) [0..<length (minted s es)]"
proof (induction es arbitrary: s)
  case Nil
  then show ?case by simp
next
  case (Cons e es)
  let ?s1 = "fst (step s e)"
  note ih = Cons.IH [of ?s1]
  show ?case
  proof (cases "m_seq ?s1 = m_seq s")
    case True
    with ih show ?thesis by simp
  next
    case False
    then have n: "m_seq ?s1 = m_seq s + 1" using step_seq(3) [of s e] by blast
    have "minted s (e # es) = m_seq s # minted ?s1 es" using False by simp
    also have "minted ?s1 es = map (\<lambda>i. m_seq s + of_nat (Suc i)) [0..<length (minted ?s1 es)]"
      using ih n by (simp add: ac_simps)
    finally have m: "minted s (e # es) =
        m_seq s # map (\<lambda>i. m_seq s + of_nat (Suc i)) [0..<length (minted ?s1 es)]" .
    have l: "length (minted s (e # es)) = Suc (length (minted ?s1 es))" using False by simp
    show ?thesis
      unfolding l by (subst m) (simp add: map_upt_Suc del: upt_Suc of_nat_Suc)
  qed
qed

lemma unat_add_of_nat:
  assumes "unat (a :: 32 word) + i < 2 ^ 32"
  shows "unat (a + of_nat i) = unat a + i"
proof -
  have i: "unat (of_nat i :: 32 word) = i" using assms by (simp add: unat_of_nat)
  then have "unat a + unat (of_nat i :: 32 word) < 2 ^ LENGTH(32)" using assms by simp
  then have "unat (a + of_nat i) = unat a + unat (of_nat i :: 32 word)"
    by (simp only: unat_add_lem [THEN iffD1])
  with i show ?thesis by simp
qed

lemma consecutive_increasing:
  assumes "unat (a :: 32 word) + n \<le> 2 ^ 32"
  shows "sorted_wrt (<) (map (\<lambda>i. a + of_nat i) [0..<n])"
proof -
  have "sorted_wrt (\<lambda>i j. a + of_nat i < a + of_nat j) [0..<n]"
  proof (rule sorted_wrt_mono_rel [of _ "(<)"])
    show "sorted_wrt (<) [0..<n]" by simp
  next
    fix i j assume "i \<in> set [0..<n]" "j \<in> set [0..<n]" "i < j"
    then have "unat a + i < 2 ^ 32" "unat a + j < 2 ^ 32" "i < j" using assms by simp_all
    then show "a + of_nat i < a + of_nat j"
      by (simp add: word_less_nat_alt unat_add_of_nat)
  qed
  then show ?thesis by (simp add: sorted_wrt_map)
qed

lemma minted_limited:
  "m_seqMax s \<noteq> uint32_max \<Longrightarrow>
   minted s es = [] \<or> unat (m_seq s) + length (minted s es) \<le> unat (m_seqMax s)"
proof (induction es arbitrary: s)
  case Nil
  then show ?case by simp
next
  case (Cons e es)
  let ?s1 = "fst (step s e)"
  have mx: "m_seqMax ?s1 = m_seqMax s" by (rule step_seq)
  then have ih: "minted ?s1 es = [] \<or> unat (m_seq ?s1) + length (minted ?s1 es) \<le> unat (m_seqMax s)"
    using Cons.IH [of ?s1] Cons.prems by simp
  show ?case
  proof (cases "m_seq ?s1 = m_seq s")
    case True
    with ih show ?thesis by simp
  next
    case False
    then have n: "m_seq ?s1 = m_seq s + 1" and f: "fresh_ok s" using step_seq(3) [of s e] by blast+
    then have lt: "m_seq s < m_seqMax s" using Cons.prems by (simp add: fresh_ok_def)
    then have u: "unat (m_seq ?s1) = unat (m_seq s) + 1" using n by (simp add: unat_succ_less)
    have "unat (m_seq s) < unat (m_seqMax s)" using lt by (simp add: word_less_nat_alt)
    with ih u False show ?thesis by auto
  qed
qed

lemma run_sent_minted:
  "m_retxSeqs s = [] \<Longrightarrow> filter is_SentSeq (snd (run s es)) = [] \<Longrightarrow>
   sent_seqs (snd (run s es)) = minted s es"
proof (induction es arbitrary: s)
  case Nil
  then show ?case by simp
next
  case (Cons e es)
  let ?s1 = "fst (step s e)"
  have q: "filter is_SentSeq (snd (step s e)) = []" "filter is_SentSeq (snd (run ?s1 es)) = []"
    using Cons.prems(2) by (simp_all only: run_Cons_snd filter_append append_is_Nil_conv)
  have st: "m_retxSeqs ?s1 = [] \<and>
      sent_seqs (snd (step s e)) = (if m_seq ?s1 \<noteq> m_seq s then [m_seq s] else [])"
  proof (cases e)
    case (Ev_SendPacket now)
    then show ?thesis
      using SendPacket_empty [OF Cons.prems(1), of now] by (cases "fresh_ok s") simp_all
  next
    case (Ev_CheckRetxTimeout now rto)
    then show ?thesis
      using CheckRetxTimeout_quiet [of s now rto] q(1) Cons.prems(1) by (simp add: quiet_post_def)
  next
    case (Ev_OnData now k h)
    then show ?thesis
      using OnData_plain [of now k h s] OnData_retx_empty [OF Cons.prems(1), of now k h]
      by simp
  qed
  then have ih: "sent_seqs (snd (run ?s1 es)) = minted ?s1 es"
    using Cons.IH [of ?s1] q(2) by simp
  show ?case
    using st ih by (simp only: run_Cons_snd sent_seqs_append minted.simps)
qed

lemma run_minted_ticks:
  "m_retxSeqs s = [] \<Longrightarrow> filter is_SentSeq (snd (run s es)) = [] \<Longrightarrow> m_active s \<Longrightarrow>
   m_seqMax s \<noteq> uint32_max \<Longrightarrow>
   minted s es =
     map of_nat [unat (m_seq s) ..< min (unat (m_seq s) + ticks es) (unat (m_seqMax s))]"
proof (induction es arbitrary: s)
  case Nil
  then show ?case by (simp add: ticks_def)
next
  case (Cons e es)
  let ?s1 = "fst (step s e)"
  have q: "filter is_SentSeq (snd (step s e)) = []" "filter is_SentSeq (snd (run ?s1 es)) = []"
    using Cons.prems(2) by (simp_all only: run_Cons_snd filter_append append_is_Nil_conv)
  have sc: "m_seqMax ?s1 = m_seqMax s" "m_active ?s1 = m_active s" by (rule step_seq)+
  show ?case
  proof (cases e)
    case (Ev_SendPacket now)
    note t = SendPacket_empty [OF Cons.prems(1), of now]
    have r1: "m_retxSeqs ?s1 = []" using t(1) Ev_SendPacket by simp
    note ih = Cons.IH [OF r1 q(2)]
    have tk: "ticks (e # es) = Suc (ticks es)" using Ev_SendPacket by (simp add: ticks_def)
    show ?thesis
    proof (cases "fresh_ok s")
      case True
      then have lt: "m_seq s < m_seqMax s" using Cons.prems(4) by (simp add: fresh_ok_def)
      have n: "m_seq ?s1 = m_seq s + 1" using t(3) [OF True] Ev_SendPacket by simp
      then have u: "unat (m_seq ?s1) = Suc (unat (m_seq s))" using lt by (simp add: unat_succ_less)
      have ul: "unat (m_seq s) < unat (m_seqMax s)" using lt by (simp add: word_less_nat_alt)
      have m: "minted s (e # es) = m_seq s # minted ?s1 es" using n by simp
      have "minted ?s1 es =
          map of_nat [Suc (unat (m_seq s)) ..< min (Suc (unat (m_seq s)) + ticks es) (unat (m_seqMax s))]"
        using ih sc Cons.prems(3,4) u by simp
      moreover have "[unat (m_seq s) ..< min (unat (m_seq s) + Suc (ticks es)) (unat (m_seqMax s))]
          = unat (m_seq s) # [Suc (unat (m_seq s)) ..< min (Suc (unat (m_seq s)) + ticks es) (unat (m_seqMax s))]"
        using ul by (subst upt_conv_Cons) simp_all
      ultimately show ?thesis unfolding m tk by simp
    next
      case False
      then have ge: "unat (m_seqMax s) \<le> unat (m_seq s)"
        using Cons.prems(3,4) by (simp add: fresh_ok_def word_less_nat_alt)
      have n: "m_seq ?s1 = m_seq s" using t(4) [OF False] Ev_SendPacket by simp
      have "minted ?s1 es = []" using ih sc Cons.prems(3,4) n ge by simp
      with n ge show ?thesis by simp
    qed
  next
    case (Ev_CheckRetxTimeout now rto)
    note c = CheckRetxTimeout_quiet [of s now rto, unfolded quiet_post_def]
    have r1: "m_retxSeqs ?s1 = []" and n: "m_seq ?s1 = m_seq s"
      using c q(1) Cons.prems(1) Ev_CheckRetxTimeout by simp_all
    have tk: "ticks (e # es) = ticks es" using Ev_CheckRetxTimeout by (simp add: ticks_def)
    show ?thesis
      using Cons.IH [OF r1 q(2)] sc Cons.prems(3,4) n tk by simp
  next
    case (Ev_OnData now k h)
    note d = OnData_plain [of now k h s]
    have r1: "m_retxSeqs ?s1 = []" and n: "m_seq ?s1 = m_seq s"
      using d OnData_retx_empty [OF Cons.prems(1), of now k h] Ev_OnData by simp_all
    have tk: "ticks (e # es) = ticks es" using Ev_OnData by (simp add: ticks_def)
    show ?thesis
      using Cons.IH [OF r1 q(2)] sc Cons.prems(3,4) n tk by simp
  qed
qed

definition ex_wrap :: "event list" where
  "ex_wrap = [Ev_SendPacket 0, Ev_SendPacket 10]"

lemma ex_wrap_run:
  "minted ex_unlimited ex_wrap = [0xFFFFFFFF, 0]"
  "sent_seqs (snd (run ex_unlimited ex_wrap)) = [0xFFFFFFFF, 0]"
  "filter is_SentSeq (snd (run ex_unlimited ex_wrap)) = []"
  by (simp_all add: ex_wrap_def model_defs sent_seqs_def)

text \<open>
  Claim C9, as stated, fails where the 32-bit counter wraps: \<open>ex_unlimited\<close> has no
  limit and its counter stands at \<open>0xFFFFFFFF\<close>; two ticks, with no retransmission,
  mint \<open>0xFFFFFFFF\<close> and then 0.
\<close>

theorem fresh_sequence_numbers_counterexample:
  "m_retxSeqs ex_unlimited = [] \<and> filter is_SentSeq (snd (run ex_unlimited ex_wrap)) = []
   \<and> minted ex_unlimited ex_wrap = [0xFFFFFFFF, 0]
   \<and> sent_seqs (snd (run ex_unlimited ex_wrap)) = [0xFFFFFFFF, 0]
   \<and> \<not> sorted_wrt (<) (minted ex_unlimited ex_wrap)"
  by (simp add: ex_wrap_run) (simp add: ex_unlimited_def Consumer_def)

text \<open>
  Claim C9, amended. In an execution with no retransmission (the retransmission set is
  empty at the start and the timeout handler never schedules a retry), the sequence
  numbers sent are the minted ones, and these are consecutive values of the 32-bit
  counter from its start. They are strictly increasing, so each is issued once, as
  long as the counter does not pass \<open>0xFFFFFFFF\<close>. With a limit configured that always
  holds, every minted number is below the limit, and an active consumer mints exactly
  the numbers from the start up to the limit or as far as its ticks reach (from 0
  with limit 5 and at least five ticks: 0, 1, 2, 3, 4).
\<close>

theorem fresh_sequence_numbers:
  assumes "m_retxSeqs s = []" and "filter is_SentSeq (snd (run s es)) = []"
  shows "sent_seqs (snd (run s es)) = minted s es
    \<and> minted s es = map (\<lambda>i. m_seq s + of_nat i) [0..<length (minted s es)]
    \<and> (unat (m_seq s) + length (minted s es) \<le> 2 ^ 32 \<longrightarrow>
          sorted_wrt (<) (minted s es) \<and> distinct (minted s es))
    \<and> (m_seqMax s \<noteq> uint32_max \<longrightarrow>
          sorted_wrt (<) (minted s es) \<and> distinct (minted s es)
          \<and> (\<forall>k \<in> set (minted s es). k < m_seqMax s)
          \<and> (m_active s \<longrightarrow>
                minted s es =
                  map of_nat [unat (m_seq s) ..<
                              min (unat (m_seq s) + ticks es) (unat (m_seqMax s))]))"
proof -
  let ?n = "length (minted s es)"
  note c = minted_consecutive [of s es]
  have inc: "unat (m_seq s) + ?n \<le> 2 ^ 32 \<Longrightarrow>
      sorted_wrt (<) (minted s es) \<and> distinct (minted s es)"
  proof -
    assume "unat (m_seq s) + ?n \<le> 2 ^ 32"
    then have "sorted_wrt (<) (map (\<lambda>i. m_seq s + of_nat i) [0..<?n])"
      by (rule consecutive_increasing)
    then have "sorted_wrt (<) (minted s es)" using c by simp
    then show ?thesis by (simp add: strict_sorted_iff)
  qed
  have lim: "sorted_wrt (<) (minted s es) \<and> distinct (minted s es)
      \<and> (\<forall>k \<in> set (minted s es). k < m_seqMax s)" if mx: "m_seqMax s \<noteq> uint32_max"
  proof (cases "minted s es = []")
    case True
    then show ?thesis by simp
  next
    case False
    then have b: "unat (m_seq s) + ?n \<le> unat (m_seqMax s)"
      using minted_limited [OF mx, of es] by simp
    have "unat (m_seqMax s) < 2 ^ LENGTH(32)" by (rule unsigned_less)
    then have b2: "unat (m_seq s) + ?n \<le> 2 ^ 32" using b by simp
    have "k < m_seqMax s" if "k \<in> set (minted s es)" for k
    proof -
      from that obtain i where i: "i < ?n" "k = m_seq s + of_nat i"
        by (subst (asm) c) auto
      then have "unat (m_seq s) + i < 2 ^ 32" using b2 by simp
      then have "unat k = unat (m_seq s) + i" using i(2) by (simp add: unat_add_of_nat)
      then show ?thesis using i(1) b by (simp add: word_less_nat_alt)
    qed
    with inc [OF b2] show ?thesis by simp
  qed
  show ?thesis
    using run_sent_minted [OF assms] c inc lim run_minted_ticks [OF assms]
    by blast
qed

lemma ex_seven_ticks_run:
  "minted ex_limited ex_seven_ticks = [0, 1, 2, 3, 4]"
  "sent_seqs (snd (run ex_limited ex_seven_ticks)) = [0, 1, 2, 3, 4]"
  "filter is_SentSeq (snd (run ex_limited ex_seven_ticks)) = []"
  by (simp_all add: ex_seven_ticks_def model_defs sent_seqs_def)

theorem fresh_sequence_numbers_witness:
  "m_retxSeqs ex_limited = [] \<and> filter is_SentSeq (snd (run ex_limited ex_seven_ticks)) = []
   \<and> m_seq ex_limited = 0 \<and> m_seqMax ex_limited = 5 \<and> m_seqMax ex_limited \<noteq> uint32_max
   \<and> m_active ex_limited \<and> ticks ex_seven_ticks = 7
   \<and> sent_seqs (snd (run ex_limited ex_seven_ticks)) = [0, 1, 2, 3, 4]
   \<and> minted ex_limited ex_seven_ticks = [0, 1, 2, 3, 4]
   \<and> sorted_wrt (<) (minted ex_limited ex_seven_ticks)
   \<and> distinct (minted ex_limited ex_seven_ticks)"
proof -
  have a: "m_retxSeqs ex_limited = []" "m_seq ex_limited = 0" "m_seqMax ex_limited = 5"
    "m_seqMax ex_limited \<noteq> uint32_max" "m_active ex_limited"
    by (simp_all add: ex_limited_def Consumer_def uint32_max_def)
  have q: "filter is_SentSeq (snd (run ex_limited ex_seven_ticks)) = []"
    by (rule ex_seven_ticks_run)
  have t: "ticks ex_seven_ticks = 7" by (simp add: ticks_def ex_seven_ticks_def)
  show ?thesis
    using a q t ex_seven_ticks_run(1) fresh_sequence_numbers [OF a(1) q]
    by simp
qed

end
